theory Spec2Isabelle
  imports Complex_Main "HOL-Library.Word"
begin

section \<open>IEEE-754 binary64 arithmetic\<close>

text \<open>
  The program computes with the C++ type \<open>double\<close>. Its values are modelled as the
  values of IEEE-754 binary64: a NaN, the two infinities, and the finite numbers
  \<open>(-1)^s * m * 2^e\<close>, kept in the one canonical form that corresponds to the bit
  pattern (\<open>e = -1074\<close> for zeros and subnormals, \<open>2^52 \<le> m < 2^53\<close> otherwise).
  The sign flag is \<open>True\<close> for a set sign bit. Sign and payload of a NaN are not
  represented. Every operation rounds its exact result to nearest, ties to even,
  which is the rounding mode in force when \<open>main\<close> starts; each operator of the source
  is rounded on its own (no fused multiply-add, no extended precision).
\<close>

datatype double = NaN | Inf bool | Fin bool int int

definition valid_double :: "double \<Rightarrow> bool" where
  "valid_double x =
     (case x of
        NaN \<Rightarrow> True
      | Inf s \<Rightarrow> True
      | Fin s m e \<Rightarrow>
          (0 \<le> m \<and> m < 2 ^ 52 \<and> e = - 1074) \<or>
          (2 ^ 52 \<le> m \<and> m < 2 ^ 53 \<and> - 1074 \<le> e \<and> e \<le> 971))"

text \<open>The real number a finite double stands for (0 for the values that are not finite).\<close>

definition valof :: "double \<Rightarrow> real" where
  "valof x =
     (case x of
        NaN \<Rightarrow> 0
      | Inf s \<Rightarrow> 0
      | Fin s m e \<Rightarrow> (if s then - 1 else 1) * of_int m * 2 powi e)"

definition is_finite :: "double \<Rightarrow> bool" where
  "is_finite x = (case x of Fin s m e \<Rightarrow> True | _ \<Rightarrow> False)"

definition is_nan :: "double \<Rightarrow> bool" where
  "is_nan x = (x = NaN)"

definition is_infinite :: "double \<Rightarrow> bool" where
  "is_infinite x = (case x of Inf s \<Rightarrow> True | _ \<Rightarrow> False)"

text \<open>Number of binary digits of a positive integer.\<close>

function bit_length :: "int \<Rightarrow> int" where
  "bit_length n = (if n \<le> 0 then 0 else 1 + bit_length (n div 2))"
  by pat_completeness auto
termination
  by (relation "measure nat") auto

declare bit_length.simps [simp del]

text \<open>\<open>floor_log2 n d\<close> is the integer \<open>k\<close> with \<open>2^k \<le> n/d < 2^(k+1)\<close>, for \<open>n, d > 0\<close>.\<close>

definition floor_log2 :: "int \<Rightarrow> int \<Rightarrow> int" where
  "floor_log2 n d =
     (let k = bit_length n - bit_length d in
      if (if 0 \<le> k then d * 2 ^ nat k \<le> n else d \<le> n * 2 ^ nat (- k)) then k else k - 1)"

text \<open>The integer nearest to \<open>num/den\<close>, the even one of the two on a tie.\<close>

definition round_half_even :: "int \<Rightarrow> int \<Rightarrow> int" where
  "round_half_even num den =
     (let q = num div den; r = num mod den in
      if 2 * r < den then q
      else if den < 2 * r then q + 1
      else if even q then q else q + 1)"

text \<open>
  \<open>round_double s n d\<close> is the double nearest to \<open>(-1)^s * n/d\<close> (\<open>n \<ge> 0\<close>, \<open>d > 0\<close>):
  the exponent is the one of the binade of \<open>n/d\<close>, not below the subnormal exponent;
  the significand is rounded at that exponent; a significand that rounds up to \<open>2^53\<close>
  moves to the next binade; an exponent above the largest one overflows to infinity.
\<close>

definition round_exponent :: "int \<Rightarrow> int \<Rightarrow> int" where
  "round_exponent n d = max (floor_log2 n d - 52) (- 1074)"

definition round_significand :: "int \<Rightarrow> int \<Rightarrow> int" where
  "round_significand n d =
     (let e = round_exponent n d in
      if 0 \<le> e then round_half_even n (d * 2 ^ nat e)
      else round_half_even (n * 2 ^ nat (- e)) d)"

definition round_double :: "bool \<Rightarrow> int \<Rightarrow> int \<Rightarrow> double" where
  "round_double s n d =
     (if n = 0 then Fin s 0 (- 1074)
      else
        let e = round_exponent n d;
            m = round_significand n d
        in if m = 2 ^ 53
           then (if 971 < e + 1 then Inf s else Fin s (2 ^ 52) (e + 1))
           else (if 971 < e then Inf s else Fin s m e))"

text \<open>The real number \<open>round_double\<close> rounds \<open>n/d\<close> to, before the range of the exponent
  is looked at.\<close>

definition rounded_value :: "int \<Rightarrow> int \<Rightarrow> real" where
  "rounded_value n d = real_of_int (round_significand n d) * 2 powi (round_exponent n d)"

text \<open>\<open>m * 2^e\<close> as a fraction of integers.\<close>

definition scale_num :: "int \<Rightarrow> int \<Rightarrow> int" where
  "scale_num m e = (if 0 \<le> e then m * 2 ^ nat e else m)"

definition scale_den :: "int \<Rightarrow> int" where
  "scale_den e = (if 0 \<le> e then 1 else 2 ^ nat (- e))"

definition d_neg :: "double \<Rightarrow> double" where
  "d_neg x = (case x of NaN \<Rightarrow> NaN | Inf s \<Rightarrow> Inf (\<not> s) | Fin s m e \<Rightarrow> Fin (\<not> s) m e)"

fun d_add :: "double \<Rightarrow> double \<Rightarrow> double" where
  "d_add NaN y = NaN"
| "d_add x NaN = NaN"
| "d_add (Inf s) (Inf t) = (if s = t then Inf s else NaN)"
| "d_add (Inf s) (Fin t m e) = Inf s"
| "d_add (Fin s m e) (Inf t) = Inf t"
| "d_add (Fin s1 m1 e1) (Fin s2 m2 e2) =
     (let e = min e1 e2;
          a = (if s1 then - m1 else m1) * 2 ^ nat (e1 - e)
            + (if s2 then - m2 else m2) * 2 ^ nat (e2 - e)
      in if a = 0 then Fin (s1 \<and> s2) 0 (- 1074)
         else round_double (a < 0) (scale_num \<bar>a\<bar> e) (scale_den e))"

definition d_sub :: "double \<Rightarrow> double \<Rightarrow> double" where
  "d_sub x y = d_add x (d_neg y)"

fun d_mul :: "double \<Rightarrow> double \<Rightarrow> double" where
  "d_mul NaN y = NaN"
| "d_mul x NaN = NaN"
| "d_mul (Inf s) (Inf t) = Inf (s \<noteq> t)"
| "d_mul (Inf s) (Fin t m e) = (if m = 0 then NaN else Inf (s \<noteq> t))"
| "d_mul (Fin s m e) (Inf t) = (if m = 0 then NaN else Inf (s \<noteq> t))"
| "d_mul (Fin s1 m1 e1) (Fin s2 m2 e2) =
     round_double (s1 \<noteq> s2) (scale_num (m1 * m2) (e1 + e2)) (scale_den (e1 + e2))"

fun d_div :: "double \<Rightarrow> double \<Rightarrow> double" where
  "d_div NaN y = NaN"
| "d_div x NaN = NaN"
| "d_div (Inf s) (Inf t) = NaN"
| "d_div (Inf s) (Fin t m e) = Inf (s \<noteq> t)"
| "d_div (Fin s m e) (Inf t) = Fin (s \<noteq> t) 0 (- 1074)"
| "d_div (Fin s1 m1 e1) (Fin s2 m2 e2) =
     (if m2 = 0 then (if m1 = 0 then NaN else Inf (s1 \<noteq> s2))
      else round_double (s1 \<noteq> s2)
             (scale_num m1 e1 * scale_den e2) (scale_den e1 * scale_num m2 e2))"

text \<open>Conversions of the integer types of the program to \<open>double\<close>.\<close>

definition int_to_double :: "int \<Rightarrow> double" where
  "int_to_double k = round_double (k < 0) \<bar>k\<bar> 1"

definition ull_to_double :: "64 word \<Rightarrow> double" where
  "ull_to_double w = int_to_double (uint w)"

definition sint_to_double :: "32 word \<Rightarrow> double" where
  "sint_to_double w = int_to_double (sint w)"

text \<open>The literals \<open>0.0\<close>, \<open>1.0\<close>, \<open>2.0\<close> and \<open>4.0\<close>.\<close>

definition d_zero :: double where "d_zero = Fin False 0 (- 1074)"
definition d_one :: double where "d_one = Fin False (2 ^ 52) (- 52)"
definition d_two :: double where "d_two = Fin False (2 ^ 52) (- 51)"
definition d_four :: double where "d_four = Fin False (2 ^ 52) (- 50)"

text \<open>The finite doubles in canonical form whose sign bit is clear.\<close>

definition fin_nonneg :: "double \<Rightarrow> bool" where
  "fin_nonneg x = (case x of Fin s m e \<Rightarrow> \<not> s \<and> valid_double (Fin s m e) | _ \<Rightarrow> False)"

text \<open>The doubles in canonical form that are not negative: NaN, plus infinity, and the
  finite ones with a clear sign bit.\<close>

definition nonneg_double :: "double \<Rightarrow> bool" where
  "nonneg_double x =
     (case x of NaN \<Rightarrow> True | Inf s \<Rightarrow> \<not> s | Fin s m e \<Rightarrow> \<not> s \<and> valid_double (Fin s m e))"

section \<open>The partial integrator\<close>

text \<open>
  \<^verbatim>\<open>
  double calculate_partial_integral(double start, double end, unsigned long long steps) {
      double sum = 0.0;
      double step_size = (end - start) / steps;
      for (unsigned long long i = 0; i < steps; ++i) {
          double x = start + i * step_size + step_size / 2.0;
          sum += 4.0 / (1.0 + x * x);
      }
      return sum * step_size;
  }
  \<close>
\<close>

definition midpoint :: "double \<Rightarrow> double \<Rightarrow> 64 word \<Rightarrow> double" where
  "midpoint start step_size i =
     d_add (d_add start (d_mul (ull_to_double i) step_size)) (d_div step_size d_two)"

definition integrand :: "double \<Rightarrow> double" where
  "integrand x = d_div d_four (d_add d_one (d_mul x x))"

function integral_loop :: "double \<Rightarrow> double \<Rightarrow> 64 word \<Rightarrow> 64 word \<Rightarrow> double \<Rightarrow> double" where
  "integral_loop start step_size steps i acc =
     (if i < steps
      then integral_loop start step_size steps (i + 1)
             (d_add acc (integrand (midpoint start step_size i)))
      else acc)"
  by pat_completeness auto
termination
proof (relation "measure (\<lambda>(start, step_size, steps, i, acc). unat steps - unat i)")
  show "wf (measure (\<lambda>(start, step_size, steps, i, acc). unat steps - unat i))"
    by simp
next
  fix start step_size :: double and steps i :: "64 word" and acc :: double
  assume lt: "i < steps"
  then have "unat i < unat steps"
    by (simp add: word_less_nat_alt)
  moreover from lt have "unat (i + 1) = unat i + 1"
    by (metis (no_types, lifting) add.commute add_cancel_left_right inc_i
      inc_le unat_plus_simple unsigned_0 unsigned_1 word_gt_0)
  ultimately show "((start, step_size, steps, i + 1,
        d_add acc (integrand (midpoint start step_size i))),
       (start, step_size, steps, i, acc))
      \<in> measure (\<lambda>(start, step_size, steps, i, acc). unat steps - unat i)"
    by simp
qed

declare integral_loop.simps [simp del]

definition calculate_partial_integral :: "double \<Rightarrow> double \<Rightarrow> 64 word \<Rightarrow> double" where
  "calculate_partial_integral start endp steps =
     (let step_size = d_div (d_sub endp start) (ull_to_double steps)
      in d_mul (integral_loop start step_size steps 0 d_zero) step_size)"

section \<open>The program\<close>

text \<open>
  \<open>main\<close> reads \<open>num_steps\<close> (\<open>unsigned long long\<close>) and \<open>num_threads\<close> (\<open>int\<close>), rejects
  non-positive values, and otherwise starts \<open>num_threads\<close> threads, each running
  \<open>thread_worker\<close> on its own interval. What follows models \<open>main\<close> from the values read.
\<close>

definition error_message :: string where
  "error_message =
     ''Liczba w'' @ [CHR 0xC4, CHR 0x85] @ ''tk'' @ [CHR 0xC3, CHR 0xB3] @ ''w i podzia''
     @ [CHR 0xC5, CHR 0x82, CHR 0xC3, CHR 0xB3] @ ''w musi by'' @ [CHR 0xC4, CHR 0x87]
     @ '' dodatnia!''"

text \<open>The test \<open>num_threads <= 0 || num_steps <= 0\<close>: signed on the \<open>int\<close>, unsigned on the
  \<open>unsigned long long\<close>.\<close>

definition invalid_input :: "64 word \<Rightarrow> 32 word \<Rightarrow> bool" where
  "invalid_input num_steps num_threads \<longleftrightarrow> num_threads <=s 0 \<or> num_steps \<le> 0"

text \<open>\<open>num_steps / num_threads\<close>: the \<open>int\<close> is converted to \<open>unsigned long long\<close> and the
  division is the unsigned one.\<close>

definition steps_per_thread :: "64 word \<Rightarrow> 32 word \<Rightarrow> 64 word" where
  "steps_per_thread num_steps num_threads = num_steps div scast num_threads"

definition range_per_thread :: "32 word \<Rightarrow> double" where
  "range_per_thread num_threads = d_div d_one (sint_to_double num_threads)"

text \<open>\<open>i * range_per_thread\<close> and \<open>(i + 1) * range_per_thread\<close> of the launching loop.\<close>

definition interval_start :: "32 word \<Rightarrow> 32 word \<Rightarrow> double" where
  "interval_start num_threads i = d_mul (sint_to_double i) (range_per_thread num_threads)"

definition interval_end :: "32 word \<Rightarrow> 32 word \<Rightarrow> double" where
  "interval_end num_threads i = d_mul (sint_to_double (i + 1)) (range_per_thread num_threads)"

text \<open>
  A thread keeps the arguments it was created with. Its control is at one of the points
  of \<open>thread_worker\<close>: before the call of \<open>calculate_partial_integral\<close>; holding
  \<open>partial_result\<close> and blocked in the constructor of the \<open>lock_guard\<close>; owning the mutex
  before \<open>total_result\<close> is read; owning the mutex with the value read from
  \<open>total_result\<close>; returned.
\<close>

datatype phase =
    Launched
  | Waiting double
  | Locked double
  | Loaded double double
  | Finished

record worker =
  w_start :: double
  w_end :: double
  w_steps :: "64 word"
  w_phase :: phase

record main_state =
  total_result :: double
  result_mutex :: bool
  threads :: "worker list"
  loop_i :: "32 word"

definition initial_state :: main_state where
  "initial_state =
     \<lparr>total_result = d_zero, result_mutex = False, threads = [], loop_i = 0\<rparr>"

datatype event = Launch nat | Integrate nat | Acquire nat | Load nat | Store nat

text \<open>
  One step of the running program: \<open>main\<close> creates the next thread, or some thread that
  has been created takes its next step. \<open>total_result += partial_result\<close> is a read
  followed by a write; both happen while the thread owns \<open>result_mutex\<close>, which the
  destructor of the \<open>lock_guard\<close> releases after the write.
\<close>

inductive step :: "64 word \<Rightarrow> 32 word \<Rightarrow> main_state \<Rightarrow> event \<Rightarrow> main_state \<Rightarrow> bool"
  for num_steps :: "64 word" and num_threads :: "32 word"
where
  launch:
    "loop_i \<sigma> <s num_threads \<Longrightarrow>
     step num_steps num_threads \<sigma> (Launch (length (threads \<sigma>)))
       (\<sigma>\<lparr>threads := threads \<sigma> @
            [\<lparr>w_start = interval_start num_threads (loop_i \<sigma>),
              w_end = interval_end num_threads (loop_i \<sigma>),
              w_steps = steps_per_thread num_steps num_threads,
              w_phase = Launched\<rparr>],
          loop_i := loop_i \<sigma> + 1\<rparr>)"
| integrate:
    "k < length (threads \<sigma>) \<Longrightarrow> w_phase (threads \<sigma> ! k) = Launched \<Longrightarrow>
     step num_steps num_threads \<sigma> (Integrate k)
       (\<sigma>\<lparr>threads := (threads \<sigma>)[k := (threads \<sigma> ! k)
            \<lparr>w_phase := Waiting (calculate_partial_integral
               (w_start (threads \<sigma> ! k)) (w_end (threads \<sigma> ! k))
               (w_steps (threads \<sigma> ! k)))\<rparr>]\<rparr>)"
| acquire:
    "k < length (threads \<sigma>) \<Longrightarrow> w_phase (threads \<sigma> ! k) = Waiting p \<Longrightarrow>
     \<not> result_mutex \<sigma> \<Longrightarrow>
     step num_steps num_threads \<sigma> (Acquire k)
       (\<sigma>\<lparr>result_mutex := True,
          threads := (threads \<sigma>)[k := (threads \<sigma> ! k)\<lparr>w_phase := Locked p\<rparr>]\<rparr>)"
| load:
    "k < length (threads \<sigma>) \<Longrightarrow> w_phase (threads \<sigma> ! k) = Locked p \<Longrightarrow>
     step num_steps num_threads \<sigma> (Load k)
       (\<sigma>\<lparr>threads := (threads \<sigma>)[k := (threads \<sigma> ! k)
            \<lparr>w_phase := Loaded p (total_result \<sigma>)\<rparr>]\<rparr>)"
| store:
    "k < length (threads \<sigma>) \<Longrightarrow> w_phase (threads \<sigma> ! k) = Loaded p t \<Longrightarrow>
     step num_steps num_threads \<sigma> (Store k)
       (\<sigma>\<lparr>total_result := d_add t p, result_mutex := False,
          threads := (threads \<sigma>)[k := (threads \<sigma> ! k)\<lparr>w_phase := Finished\<rparr>]\<rparr>)"

inductive run :: "64 word \<Rightarrow> 32 word \<Rightarrow> main_state \<Rightarrow> event list \<Rightarrow> main_state \<Rightarrow> bool"
  for num_steps :: "64 word" and num_threads :: "32 word"
where
  run_nil: "run num_steps num_threads \<sigma> [] \<sigma>"
| run_snoc:
    "run num_steps num_threads \<sigma> evs \<sigma>' \<Longrightarrow> step num_steps num_threads \<sigma>' ev \<sigma>'' \<Longrightarrow>
     run num_steps num_threads \<sigma> (evs @ [ev]) \<sigma>''"

text \<open>The launching loop is over and every \<open>join\<close> has returned.\<close>

definition joined :: "32 word \<Rightarrow> main_state \<Rightarrow> bool" where
  "joined num_threads \<sigma> \<longleftrightarrow>
     \<not> loop_i \<sigma> <s num_threads \<and> (\<forall>w \<in> set (threads \<sigma>). w_phase w = Finished)"

text \<open>
  What a run of \<open>main\<close> leaves behind: the exit status with the line written to standard
  error, or the value of \<open>total_result\<close> handed to \<open>std::cout\<close> with status 0 (its
  rendering in decimal digits and the elapsed time are not modelled).
\<close>

datatype outcome = Exit_failure string int | Exit_success double int

inductive main :: "64 word \<Rightarrow> 32 word \<Rightarrow> event list \<Rightarrow> main_state option \<Rightarrow> outcome \<Rightarrow> bool"
where
  main_invalid:
    "invalid_input num_steps num_threads \<Longrightarrow>
     main num_steps num_threads [] None (Exit_failure error_message 1)"
| main_valid:
    "\<not> invalid_input num_steps num_threads \<Longrightarrow>
     run num_steps num_threads initial_state evs \<sigma> \<Longrightarrow> joined num_threads \<sigma> \<Longrightarrow>
     main num_steps num_threads evs (Some \<sigma>) (Exit_success (total_result \<sigma>) 0)"

text \<open>The partial result of the thread with index \<open>i\<close>.\<close>

definition partial_result :: "64 word \<Rightarrow> 32 word \<Rightarrow> nat \<Rightarrow> double" where
  "partial_result num_steps num_threads i =
     calculate_partial_integral
       (d_mul (int_to_double (int i)) (d_div d_one (int_to_double (sint num_threads))))
       (d_mul (int_to_double (int i + 1)) (d_div d_one (int_to_double (sint num_threads))))
       (num_steps div scast num_threads)"


section \<open>An invariant of the running program\<close>

definition in_critical_section :: "phase \<Rightarrow> bool" where
  "in_critical_section ph = (case ph of Locked p \<Rightarrow> True | Loaded p t \<Rightarrow> True | _ \<Rightarrow> False)"

definition holds_partial :: "phase \<Rightarrow> double \<Rightarrow> bool" where
  "holds_partial ph q =
     (case ph of Waiting p \<Rightarrow> p = q | Locked p \<Rightarrow> p = q | Loaded p t \<Rightarrow> p = q | _ \<Rightarrow> True)"

definition worker_ok :: "64 word \<Rightarrow> 32 word \<Rightarrow> nat \<Rightarrow> worker \<Rightarrow> bool" where
  "worker_ok num_steps num_threads k w \<longleftrightarrow>
     w_start w = d_mul (int_to_double (int k)) (range_per_thread num_threads) \<and>
     w_end w = d_mul (int_to_double (int k + 1)) (range_per_thread num_threads) \<and>
     w_steps w = steps_per_thread num_steps num_threads \<and>
     holds_partial (w_phase w) (partial_result num_steps num_threads k)"

definition finished_set :: "main_state \<Rightarrow> nat set" where
  "finished_set \<sigma> = {k. k < length (threads \<sigma>) \<and> w_phase (threads \<sigma> ! k) = Finished}"

definition invariant :: "64 word \<Rightarrow> 32 word \<Rightarrow> main_state \<Rightarrow> bool" where
  "invariant num_steps num_threads \<sigma> \<longleftrightarrow>
     0 \<le> sint (loop_i \<sigma>) \<and> sint (loop_i \<sigma>) \<le> sint num_threads \<and>
     length (threads \<sigma>) = nat (sint (loop_i \<sigma>)) \<and>
     (\<forall>k < length (threads \<sigma>). worker_ok num_steps num_threads k (threads \<sigma> ! k)) \<and>
     (\<forall>k < length (threads \<sigma>). \<forall>p t.
        w_phase (threads \<sigma> ! k) = Loaded p t \<longrightarrow> t = total_result \<sigma>) \<and>
     (result_mutex \<sigma> \<longleftrightarrow>
        (\<exists>k < length (threads \<sigma>). in_critical_section (w_phase (threads \<sigma> ! k)))) \<and>
     (\<forall>j < length (threads \<sigma>). \<forall>k < length (threads \<sigma>).
        in_critical_section (w_phase (threads \<sigma> ! j)) \<longrightarrow>
        in_critical_section (w_phase (threads \<sigma> ! k)) \<longrightarrow> j = k) \<and>
     (\<exists>order. distinct order \<and> set order = finished_set \<sigma> \<and>
        total_result \<sigma> = foldl d_add d_zero (map (partial_result num_steps num_threads) order))"


text \<open>The number of steps a thread at a given point of \<open>thread_worker\<close> still has to take,
  and the number of steps the whole program still has to take.\<close>

fun phase_steps_left :: "phase \<Rightarrow> nat" where
  "phase_steps_left Launched = 4"
| "phase_steps_left (Waiting p) = 3"
| "phase_steps_left (Locked p) = 2"
| "phase_steps_left (Loaded p t) = 1"
| "phase_steps_left Finished = 0"

definition steps_left :: "32 word \<Rightarrow> main_state \<Rightarrow> nat" where
  "steps_left num_threads \<sigma> =
     5 * nat (sint num_threads - sint (loop_i \<sigma>))
     + sum_list (map (\<lambda>w. phase_steps_left (w_phase w)) (threads \<sigma>))"

section \<open>The midpoint rule as the specification words it\<close>

text \<open>
  The specification gives the result of the partial integrator as a formula:
  \<open>step_size = (end - start) / steps\<close>, the sample points
  \<open>x_i = start + i * step_size + step_size / 2\<close> for \<open>i\<close> from \<open>0\<close> to \<open>steps - 1\<close>,
  and the sum of the samples \<open>4 / (1 + x_i\<^sup>2)\<close> times \<open>step_size\<close>. Read in double
  precision, the sum adds the samples to \<open>0.0\<close> one after the other by increasing \<open>i\<close>.
\<close>

definition spec_sample_point :: "double \<Rightarrow> double \<Rightarrow> nat \<Rightarrow> double" where
  "spec_sample_point start step_size i =
     d_add (d_add start (d_mul (int_to_double (int i)) step_size)) (d_div step_size d_two)"

definition spec_sample :: "double \<Rightarrow> double" where
  "spec_sample x = d_div d_four (d_add d_one (d_mul x x))"

definition spec_midpoint_rule :: "double \<Rightarrow> double \<Rightarrow> 64 word \<Rightarrow> double" where
  "spec_midpoint_rule start endp steps =
     (let step_size = d_div (d_sub endp start) (ull_to_double steps)
      in d_mul
           (foldl (\<lambda>s i. d_add s (spec_sample (spec_sample_point start step_size i)))
              d_zero [0 ..< unat steps])
           step_size)"
section \<open>Counting the steps, and reading the input\<close>





text \<open>
  \<open>std::cin >> num_steps\<close> and \<open>std::cin >> num_threads\<close>, for an integer typed in decimal
  digits with an optional sign. The standard library converts the field for an
  \<open>unsigned long long\<close> as \<open>strtoull\<close> does: a value with a minus sign is negated in
  the unsigned type. A value that the type of the variable cannot hold is replaced by
  the largest value of the type (for \<open>int\<close>, by the least one when it is negative), and
  the stream is left in its failed state.
\<close>

definition extract_ull :: "int \<Rightarrow> 64 word" where
  "extract_ull k = (if 2 ^ 64 \<le> \<bar>k\<bar> then - 1 else word_of_int k)"

definition extract_int :: "int \<Rightarrow> 32 word" where
  "extract_int k =
     (if k < - (2 ^ 31) then word_of_int (- (2 ^ 31))
      else if 2 ^ 31 \<le> k then word_of_int (2 ^ 31 - 1)
      else word_of_int k)"

text \<open>
  \<open>main\<close> from the two entries. When the entry for \<open>num_steps\<close> does not fit, the stream
  has failed before \<open>num_threads\<close> is read: \<open>num_threads\<close> is then left uninitialised and
  the program has no defined behaviour, so that the model has none either.
\<close>

definition main_on_input ::
    "int \<Rightarrow> int \<Rightarrow> event list \<Rightarrow> main_state option \<Rightarrow> outcome \<Rightarrow> bool" where
  "main_on_input entered_steps entered_threads evs \<sigma> out \<longleftrightarrow>
     \<bar>entered_steps\<bar> < 2 ^ 64 \<and>
     main (extract_ull entered_steps) (extract_int entered_threads) evs \<sigma> out"



section \<open>Facts about the machine integers of \<open>main\<close>\<close>

lemma sint_succ:
  assumes "(i::32 word) <s n"
  shows "sint (i + 1) = sint i + 1"
proof -
  have "sint n < 2 ^ 31" using sint_lt [of n] by simp
  moreover have "- (2 ^ 31) \<le> sint i" using sint_ge [of i] by simp
  moreover have "sint i < sint n" using assms by (simp add: word_sless_alt)
  ultimately have "signed_take_bit 31 (sint i + 1) = sint i + 1"
    by (intro signed_take_bit_int_eq_self) auto
  then show ?thesis by (simp add: sint_word_ariths)
qed

lemma unat_scast_pos:
  assumes "0 < sint (n::32 word)"
  shows "unat (scast n :: 64 word) = nat (sint n)"
proof -
  have lt: "sint n < 2 ^ 31" using sint_lt [of n] by simp
  have "uint (scast n :: 64 word) = take_bit LENGTH(64) (sint n)"
    by (simp only: scast_eq uint_word_of_int_eq)
  also have "\<dots> = sint n"
    using assms lt by (intro take_bit_int_eq_self) auto
  finally show ?thesis by (simp add: unat_eq_nat_uint)
qed

lemma valid_input_iff:
  "\<not> invalid_input num_steps num_threads \<longleftrightarrow> 0 < sint num_threads \<and> 0 < unat num_steps"
  by (auto simp: invalid_input_def word_sle_eq unat_gt_0 not_le)


section \<open>Properties of rounding\<close>

lemma bit_length_bounds:
  assumes "0 < n"
  shows "1 \<le> bit_length n \<and> 2 ^ nat (bit_length n - 1) \<le> n \<and> n < 2 ^ nat (bit_length n)"
  using assms
proof (induction n rule: bit_length.induct)
  case (1 n)
  show ?case
  proof (cases "n div 2 = 0")
    case True
    with "1.prems" have "n = 1" by presburger
    then show ?thesis by (simp add: bit_length.simps)
  next
    case False
    with "1.prems" have pos: "0 < n div 2" by presburger
    define b where "b = bit_length (n div 2)"
    from "1.IH" pos "1.prems"
    have IH: "1 \<le> b" "2 ^ nat (b - 1) \<le> n div 2" "n div 2 < 2 ^ nat b"
      by (simp_all add: b_def)
    have bl: "bit_length n = 1 + b"
      using "1.prems" by (subst bit_length.simps) (simp add: b_def)
    have "nat b = Suc (nat (b - 1))" using IH(1) by simp
    then have "(2::int) ^ nat b = 2 * 2 ^ nat (b - 1)" by simp
    also have "\<dots> \<le> 2 * (n div 2)" using IH(2) by simp
    also have "\<dots> \<le> n" by presburger
    finally have lo: "2 ^ nat b \<le> n" .
    have "n < 2 * (n div 2 + 1)" by presburger
    also have "\<dots> \<le> 2 * 2 ^ nat b" using IH(3) by simp
    also have "\<dots> = 2 ^ nat (1 + b)" using IH(1) by (simp add: nat_add_distrib)
    finally have hi: "n < 2 ^ nat (1 + b)" .
    from lo hi IH(1) show ?thesis by (simp add: bl)
  qed
qed

lemma bit_length_powi:
  assumes "0 < n"
  shows "2 powi (bit_length n - 1) \<le> real_of_int n" and "real_of_int n < 2 powi (bit_length n)"
proof -
  from bit_length_bounds [OF assms]
  have b: "1 \<le> bit_length n" "2 ^ nat (bit_length n - 1) \<le> n" "n < 2 ^ nat (bit_length n)"
    by simp_all
  have "real_of_int (2 ^ nat (bit_length n - 1)) \<le> real_of_int n"
    using b(2) by (rule of_int_le_iff [THEN iffD2])
  then show "2 powi (bit_length n - 1) \<le> real_of_int n"
    using b(1) by (simp add: power_int_nonneg_exp)
  have "real_of_int n < real_of_int (2 ^ nat (bit_length n))"
    using b(3) by (rule of_int_less_iff [THEN iffD2])
  then show "real_of_int n < 2 powi (bit_length n)"
    using b(1) by (simp add: power_int_nonneg_exp)
qed

lemma powi_two_add: "(2::real) powi (a + b) = 2 powi a * 2 powi b"
  by (simp add: power_int_add)

lemma powi_two_diff: "(2::real) powi (a - b) = 2 powi a / 2 powi b"
  by (simp add: power_int_diff)

lemma powi_two_mono: "a \<le> b \<Longrightarrow> (2::real) powi a \<le> 2 powi b"
  by (rule power_int_increasing) simp_all

lemma powi_two_less_imp:
  assumes "(2::real) powi a < 2 powi b"
  shows "a < b"
proof (rule ccontr)
  assume "\<not> a < b"
  then have "(2::real) powi b \<le> 2 powi a" by (intro powi_two_mono) simp
  with assms show False by simp
qed

text \<open>A positive real lies in exactly one binade.\<close>

lemma binade_unique:
  assumes "(2::real) powi j \<le> v" "v < 2 powi (j + 1)" "2 powi k \<le> v" "v < 2 powi (k + 1)"
  shows "j = k"
proof -
  have "2 powi j < (2::real) powi (k + 1)" using assms(1,4) by simp
  then have "j < k + 1" by (rule powi_two_less_imp)
  moreover have "2 powi k < (2::real) powi (j + 1)" using assms(3,2) by simp
  then have "k < j + 1" by (rule powi_two_less_imp)
  ultimately show ?thesis by simp
qed

lemma floor_log2_test:
  assumes "0 < d"
  shows "(if 0 \<le> k then d * 2 ^ nat k \<le> n else d \<le> n * 2 ^ nat (- k)) \<longleftrightarrow>
     2 powi k \<le> real_of_int n / real_of_int d"
proof (cases "0 \<le> k")
  case True
  have "d * 2 ^ nat k \<le> n \<longleftrightarrow> real_of_int (d * 2 ^ nat k) \<le> real_of_int n"
    by (simp only: of_int_le_iff)
  also have "\<dots> \<longleftrightarrow> real_of_int d * 2 powi k \<le> real_of_int n"
    using True by (simp add: power_int_nonneg_exp)
  also have "\<dots> \<longleftrightarrow> 2 powi k \<le> real_of_int n / real_of_int d"
    using assms by (simp add: field_simps)
  finally show ?thesis using True by simp
next
  case False
  have "d \<le> n * 2 ^ nat (- k) \<longleftrightarrow> real_of_int d \<le> real_of_int (n * 2 ^ nat (- k))"
    by (simp only: of_int_le_iff)
  also have "\<dots> \<longleftrightarrow> real_of_int d \<le> real_of_int n * 2 powi (- k)"
    using False by (simp add: power_int_nonneg_exp)
  also have "\<dots> \<longleftrightarrow> real_of_int d * 2 powi k \<le> real_of_int n"
    by (simp add: power_int_minus field_simps)
  also have "\<dots> \<longleftrightarrow> 2 powi k \<le> real_of_int n / real_of_int d"
    using assms by (simp add: field_simps)
  finally show ?thesis using False by simp
qed

lemma floor_log2_bounds:
  assumes n: "0 < n" and d: "0 < d"
  shows "2 powi (floor_log2 n d) \<le> real_of_int n / real_of_int d"
    and "real_of_int n / real_of_int d < 2 powi (floor_log2 n d + 1)"
proof -
  define k where "k = bit_length n - bit_length d"
  define v where "v = real_of_int n / real_of_int d"
  have dpos: "0 < real_of_int d" and npos: "0 < real_of_int n" using n d by simp_all
  note bn = bit_length_powi [OF n] and bd = bit_length_powi [OF d]
  have "v < 2 powi (bit_length n) / real_of_int d"
    unfolding v_def using bn(2) dpos by (simp add: divide_strict_right_mono)
  also have "\<dots> \<le> 2 powi (bit_length n) / 2 powi (bit_length d - 1)"
    using bd(1) dpos by (intro divide_left_mono) simp_all
  also have "\<dots> = 2 powi (bit_length n - (bit_length d - 1))"
    by (simp only: powi_two_diff)
  also have "\<dots> = 2 powi (k + 1)"
    by (simp add: k_def algebra_simps)
  finally have hi: "v < 2 powi (k + 1)" .
  have "k - 1 = (bit_length n - 1) - bit_length d"
    by (simp add: k_def)
  then have "(2::real) powi (k - 1) = 2 powi (bit_length n - 1) / 2 powi (bit_length d)"
    by (simp only: powi_two_diff)
  also have "\<dots> \<le> real_of_int n / 2 powi (bit_length d)"
    using bn(1) by (intro divide_right_mono) simp_all
  also have "\<dots> < real_of_int n / real_of_int d"
    using bd(2) npos dpos by (intro divide_strict_left_mono) simp_all
  finally have lo: "2 powi (k - 1) < v" by (simp add: v_def)
  have test: "(if 0 \<le> k then d * 2 ^ nat k \<le> n else d \<le> n * 2 ^ nat (- k)) \<longleftrightarrow> 2 powi k \<le> v"
    unfolding v_def using d by (rule floor_log2_test)
  have fl: "floor_log2 n d = (if 2 powi k \<le> v then k else k - 1)"
    by (simp only: floor_log2_def Let_def k_def [symmetric] test)
  show "2 powi (floor_log2 n d) \<le> real_of_int n / real_of_int d"
    using lo by (simp add: fl v_def [symmetric])
  show "real_of_int n / real_of_int d < 2 powi (floor_log2 n d + 1)"
    using hi by (simp add: fl v_def [symmetric])
qed

lemma round_half_even_cases:
  "round_half_even num den = num div den \<and> 2 * (num mod den) \<le> den \<or>
   round_half_even num den = num div den + 1 \<and> den \<le> 2 * (num mod den)"
  by (simp add: round_half_even_def Let_def)

lemma div_mod_real:
  assumes "0 < den"
  shows "real_of_int num / real_of_int den =
     real_of_int (num div den) + real_of_int (num mod den) / real_of_int den"
proof -
  have "real_of_int num = real_of_int (num div den * den + num mod den)"
    by simp
  also have "\<dots> = real_of_int (num div den) * real_of_int den + real_of_int (num mod den)"
    by (simp only: of_int_add of_int_mult)
  finally show ?thesis using assms by (simp add: field_simps)
qed

lemma round_half_even_error:
  assumes "0 < den"
  shows "\<bar>real_of_int (round_half_even num den) - real_of_int num / real_of_int den\<bar> \<le> 1 / 2"
proof -
  define r where "r = num mod den"
  have r: "0 \<le> r" "r < den" using assms by (simp_all add: r_def)
  have v: "real_of_int num / real_of_int den =
      real_of_int (num div den) + real_of_int r / real_of_int den"
    unfolding r_def using assms by (rule div_mod_real)
  have dpos: "0 < real_of_int den" using assms by simp
  from round_half_even_cases [of num den] show ?thesis
  proof
    assume a: "round_half_even num den = num div den \<and> 2 * (num mod den) \<le> den"
    then have "2 * real_of_int r \<le> real_of_int den"
      unfolding r_def by (metis of_int_le_iff of_int_mult of_int_numeral)
    then have "real_of_int r / real_of_int den \<le> 1 / 2"
      using dpos by (simp add: field_simps)
    moreover have "0 \<le> real_of_int r / real_of_int den"
      using r(1) dpos by simp
    ultimately show ?thesis using a by (simp add: v)
  next
    assume a: "round_half_even num den = num div den + 1 \<and> den \<le> 2 * (num mod den)"
    then have "real_of_int den \<le> 2 * real_of_int r"
      unfolding r_def by (metis of_int_le_iff of_int_mult of_int_numeral)
    then have "1 / 2 \<le> real_of_int r / real_of_int den"
      using dpos by (simp add: field_simps)
    moreover have "real_of_int r / real_of_int den \<le> 1"
      using r(2) dpos by (simp add: field_simps)
    ultimately show ?thesis using a by (simp add: v)
  qed
qed

lemma round_half_even_ge:
  assumes "0 < den" and "real_of_int a \<le> real_of_int num / real_of_int den"
  shows "a \<le> round_half_even num den"
proof -
  have "real_of_int (a * den) \<le> real_of_int num"
    using assms by (simp add: field_simps)
  then have "a * den \<le> num" by (simp only: of_int_le_iff)
  then have "(a * den) div den \<le> num div den"
    using assms(1) by (intro zdiv_mono1) simp_all
  then have "a \<le> num div den"
    using assms(1) by simp
  with round_half_even_cases [of num den] show ?thesis by auto
qed

lemma round_half_even_le:
  assumes "0 < den" and "real_of_int num / real_of_int den \<le> real_of_int b"
  shows "round_half_even num den \<le> b"
proof -
  have "real_of_int num \<le> real_of_int (b * den)"
    using assms by (simp add: field_simps)
  then have le: "num \<le> b * den" by (simp only: of_int_le_iff)
  have q: "num div den \<le> b"
  proof -
    have "num div den \<le> (b * den) div den" using le assms(1) by (intro zdiv_mono1) simp_all
    then show ?thesis using assms(1) by simp
  qed
  from round_half_even_cases [of num den] show ?thesis
  proof
    assume "round_half_even num den = num div den \<and> 2 * (num mod den) \<le> den"
    with q show ?thesis by simp
  next
    assume a: "round_half_even num den = num div den + 1 \<and> den \<le> 2 * (num mod den)"
    then have "0 < num mod den" using assms(1) by linarith
    have "num div den \<noteq> b"
    proof
      assume "num div den = b"
      then have "num = b * den + num mod den" by (metis div_mult_mod_eq)
      with \<open>0 < num mod den\<close> le show False by linarith
    qed
    with q a show ?thesis by linarith
  qed
qed

lemma round_exponent_cases:
  "round_exponent n d = floor_log2 n d - 52 \<and> - 1074 \<le> floor_log2 n d - 52 \<or>
   round_exponent n d = - 1074 \<and> floor_log2 n d - 52 \<le> - 1074"
  by (auto simp: round_exponent_def)

lemma round_significand_fraction:
  assumes "0 < d"
  shows "\<exists>num den. 0 < den \<and> round_significand n d = round_half_even num den \<and>
     real_of_int num / real_of_int den * 2 powi (round_exponent n d) =
       real_of_int n / real_of_int d"
proof (cases "0 \<le> round_exponent n d")
  case True
  let ?e = "round_exponent n d"
  have "0 < d * 2 ^ nat ?e" using assms by simp
  moreover have "round_significand n d = round_half_even n (d * 2 ^ nat ?e)"
    using True by (simp add: round_significand_def Let_def)
  moreover have "real_of_int n / real_of_int (d * 2 ^ nat ?e) * 2 powi ?e =
      real_of_int n / real_of_int d"
    using True by (simp add: power_int_nonneg_exp)
  ultimately show ?thesis by blast
next
  case False
  let ?e = "round_exponent n d"
  have "round_significand n d = round_half_even (n * 2 ^ nat (- ?e)) d"
    using False by (simp add: round_significand_def Let_def)
  moreover have "real_of_int (n * 2 ^ nat (- ?e)) / real_of_int d * 2 powi ?e =
      real_of_int n / real_of_int d"
  proof -
    have "(2::real) powi ?e = 1 / 2 ^ nat (- ?e)"
      using False power_int_minus_divide [of "2::real" "- ?e"]
      by (simp add: power_int_nonneg_exp)
    then show ?thesis by simp
  qed
  ultimately show ?thesis using assms by blast
qed

lemma round_significand_ge:
  assumes d: "0 < d"
    and le: "real_of_int a * 2 powi (round_exponent n d) \<le> real_of_int n / real_of_int d"
  shows "a \<le> round_significand n d"
proof -
  from round_significand_fraction [OF d, of n] obtain num den where f: "0 < den"
    "round_significand n d = round_half_even num den"
    "real_of_int num / real_of_int den * 2 powi (round_exponent n d) =
       real_of_int n / real_of_int d"
    by blast
  have "real_of_int a * 2 powi (round_exponent n d) \<le>
      real_of_int num / real_of_int den * 2 powi (round_exponent n d)"
    using le f(3) by simp
  then have "real_of_int a \<le> real_of_int num / real_of_int den"
    by (rule mult_right_le_imp_le) simp
  then show ?thesis using f(1,2) by (simp add: round_half_even_ge)
qed

lemma round_significand_le:
  assumes d: "0 < d"
    and le: "real_of_int n / real_of_int d \<le> real_of_int b * 2 powi (round_exponent n d)"
  shows "round_significand n d \<le> b"
proof -
  from round_significand_fraction [OF d, of n] obtain num den where f: "0 < den"
    "round_significand n d = round_half_even num den"
    "real_of_int num / real_of_int den * 2 powi (round_exponent n d) =
       real_of_int n / real_of_int d"
    by blast
  have "real_of_int num / real_of_int den * 2 powi (round_exponent n d) \<le>
      real_of_int b * 2 powi (round_exponent n d)"
    using le f(3) by simp
  then have "real_of_int num / real_of_int den \<le> real_of_int b"
    by (rule mult_right_le_imp_le) simp
  then show ?thesis using f(1,2) by (simp add: round_half_even_le)
qed

lemma round_significand_exact:
  assumes "0 < d"
    and "real_of_int m * 2 powi (round_exponent n d) = real_of_int n / real_of_int d"
  shows "round_significand n d = m"
proof -
  have "m \<le> round_significand n d"
    using assms by (intro round_significand_ge) simp_all
  moreover have "round_significand n d \<le> m"
    using assms by (intro round_significand_le) simp_all
  ultimately show ?thesis by simp
qed

lemma rounded_value_error:
  assumes d: "0 < d"
  shows "\<bar>rounded_value n d - real_of_int n / real_of_int d\<bar> \<le> 2 powi (round_exponent n d) / 2"
proof -
  define e where "e = round_exponent n d"
  from round_significand_fraction [OF d, of n] obtain num den where f: "0 < den"
    "round_significand n d = round_half_even num den"
    "real_of_int num / real_of_int den * 2 powi e = real_of_int n / real_of_int d"
    unfolding e_def by blast
  define q where "q = real_of_int num / real_of_int den"
  define m where "m = real_of_int (round_half_even num den)"
  have err: "\<bar>m - q\<bar> \<le> 1 / 2"
    unfolding m_def q_def using f(1) by (rule round_half_even_error)
  have "rounded_value n d - real_of_int n / real_of_int d = (m - q) * 2 powi e"
    using f(2,3) by (simp add: rounded_value_def e_def m_def q_def algebra_simps)
  then have "\<bar>rounded_value n d - real_of_int n / real_of_int d\<bar> = \<bar>m - q\<bar> * 2 powi e"
    by (simp add: abs_mult)
  also have "\<dots> \<le> 1 / 2 * 2 powi e"
    using err by (intro mult_right_mono) simp_all
  finally show ?thesis by (simp add: e_def)
qed

lemma round_significand_bounds:
  assumes n: "0 < n" and d: "0 < d"
  shows "0 \<le> round_significand n d"
    and "round_significand n d \<le> 2 ^ 53"
    and "round_exponent n d = floor_log2 n d - 52 \<Longrightarrow> 2 ^ 52 \<le> round_significand n d"
proof -
  define v where "v = real_of_int n / real_of_int d"
  define k where "k = floor_log2 n d"
  define e where "e = round_exponent n d"
  have v: "2 powi k \<le> v" "v < 2 powi (k + 1)"
    unfolding v_def k_def using floor_log2_bounds [OF n d] by simp_all
  have vpos: "0 < v" using n d by (simp add: v_def)
  have e_ge: "k - 52 \<le> e" by (simp add: e_def k_def round_exponent_def)
  show "0 \<le> round_significand n d"
  proof (rule round_significand_ge [OF d])
    show "real_of_int 0 * 2 powi round_exponent n d \<le> real_of_int n / real_of_int d"
      using vpos by (simp add: v_def)
  qed
  show "round_significand n d \<le> 2 ^ 53"
  proof (rule round_significand_le [OF d])
    have "v < 2 powi (k + 1)" by (rule v(2))
    also have "\<dots> \<le> 2 powi (53 + e)" using e_ge by (intro powi_two_mono) simp
    also have "\<dots> = 2 powi 53 * 2 powi e" by (rule powi_two_add)
    finally have "v \<le> 2 powi 53 * 2 powi e" by simp
    then show "real_of_int n / real_of_int d \<le> real_of_int (2 ^ 53) * 2 powi round_exponent n d"
      by (simp add: v_def e_def)
  qed
  show "2 ^ 52 \<le> round_significand n d" if "round_exponent n d = floor_log2 n d - 52"
  proof (rule round_significand_ge [OF d])
    from that have "k = 52 + e" by (simp add: e_def k_def)
    then have "(2::real) powi k = 2 powi 52 * 2 powi e" by (simp only: powi_two_add)
    with v(1) have "2 powi 52 * 2 powi e \<le> v" by simp
    then show "real_of_int (2 ^ 52) * 2 powi round_exponent n d \<le> real_of_int n / real_of_int d"
      by (simp add: v_def e_def)
  qed
qed

text \<open>Doubles at or above the exponent of the rounding are integer multiples of its unit.\<close>

lemma on_grid:
  assumes "e \<le> ea"
  shows "real_of_int ma * 2 powi ea = real_of_int (ma * 2 ^ nat (ea - e)) * 2 powi e"
proof -
  have "ea = (ea - e) + e" by simp
  then have "(2::real) powi ea = 2 powi (ea - e) * 2 powi e"
    by (metis powi_two_add)
  moreover have "(2::real) powi (ea - e) = 2 ^ nat (ea - e)"
    using assms by (simp add: power_int_nonneg_exp)
  ultimately show ?thesis by simp
qed

lemma rounded_value_lower:
  assumes n: "0 < n" and d: "0 < d"
    and a: "valid_double (Fin sa ma ea)"
    and le: "real_of_int ma * 2 powi ea \<le> real_of_int n / real_of_int d"
  shows "real_of_int ma * 2 powi ea \<le> rounded_value n d"
proof -
  define e where "e = round_exponent n d"
  define v where "v = real_of_int n / real_of_int d"
  have epos: "0 < (2::real) powi e" by simp
  from a have ma: "0 \<le> ma" "ma < 2 ^ 53" and ea: "- 1074 \<le> ea"
    by (auto simp: valid_double_def)
  show ?thesis
  proof (cases "e \<le> ea")
    case True
    define A where "A = ma * 2 ^ nat (ea - e)"
    have grid: "real_of_int ma * 2 powi ea = real_of_int A * 2 powi e"
      unfolding A_def using True by (rule on_grid)
    with le have "real_of_int A * 2 powi e \<le> v"
      by (simp add: v_def)
    then have "A \<le> round_significand n d"
      unfolding v_def e_def using d by (intro round_significand_ge)
    then have "real_of_int A * 2 powi e \<le> real_of_int (round_significand n d) * 2 powi e"
      using epos by (intro mult_right_mono) simp_all
    with grid show ?thesis by (simp add: rounded_value_def e_def)
  next
    case False
    with ea have "e \<noteq> - 1074" by simp
    with round_exponent_cases [of n d] have "round_exponent n d = floor_log2 n d - 52"
      by (auto simp: e_def)
    then have sig: "2 ^ 52 \<le> round_significand n d"
      using round_significand_bounds(3) [OF n d] by simp
    have "real_of_int ma \<le> 2 ^ 53" using ma(2) by (metis less_imp_le of_int_le_iff of_int_numeral of_int_power)
    then have "real_of_int ma * 2 powi ea \<le> 2 ^ 53 * 2 powi ea"
      by (intro mult_right_mono) simp_all
    also have "\<dots> \<le> 2 ^ 53 * 2 powi (e - 1)"
      using False by (intro mult_left_mono powi_two_mono) simp_all
    also have "\<dots> = 2 ^ 52 * 2 powi e"
      by (simp add: powi_two_diff)
    also have "\<dots> \<le> real_of_int (round_significand n d) * 2 powi e"
    proof (intro mult_right_mono)
      have "real_of_int (2 ^ 52) \<le> real_of_int (round_significand n d)"
        using sig by (simp only: of_int_le_iff)
      then show "2 ^ 52 \<le> real_of_int (round_significand n d)" by simp
    qed simp
    finally show ?thesis by (simp add: rounded_value_def e_def)
  qed
qed

lemma rounded_value_upper:
  assumes n: "0 < n" and d: "0 < d"
    and b: "valid_double (Fin sb mb eb)"
    and le: "real_of_int n / real_of_int d \<le> real_of_int mb * 2 powi eb"
  shows "rounded_value n d \<le> real_of_int mb * 2 powi eb"
proof -
  define e where "e = round_exponent n d"
  define k where "k = floor_log2 n d"
  define v where "v = real_of_int n / real_of_int d"
  have epos: "0 < (2::real) powi e" by simp
  from b have mb: "0 \<le> mb" "mb < 2 ^ 53" and eb: "- 1074 \<le> eb"
    by (auto simp: valid_double_def)
  have e_le: "e \<le> eb"
  proof (rule ccontr)
    assume "\<not> e \<le> eb"
    with eb have "e \<noteq> - 1074" and lt: "eb \<le> e - 1" by simp_all
    with round_exponent_cases [of n d] have ek: "k = 52 + e"
      by (auto simp: e_def k_def)
    have "real_of_int mb < 2 ^ 53" using mb(2) by (metis of_int_less_iff of_int_numeral of_int_power)
    then have "real_of_int mb * 2 powi eb < 2 ^ 53 * 2 powi eb"
      by (intro mult_strict_right_mono) simp_all
    also have "\<dots> \<le> 2 ^ 53 * 2 powi (e - 1)"
      using lt by (intro mult_left_mono powi_two_mono) simp_all
    also have "\<dots> = 2 powi 52 * 2 powi e"
      by (simp add: powi_two_diff)
    also have "\<dots> = 2 powi k"
      unfolding ek by (simp only: powi_two_add)
    also have "\<dots> \<le> v"
      unfolding v_def k_def using floor_log2_bounds(1) [OF n d] .
    finally show False using le by (simp add: v_def)
  qed
  define B where "B = mb * 2 ^ nat (eb - e)"
  have grid: "real_of_int mb * 2 powi eb = real_of_int B * 2 powi e"
    unfolding B_def using e_le by (rule on_grid)
  with le have "v \<le> real_of_int B * 2 powi e"
    by (simp add: v_def)
  then have "round_significand n d \<le> B"
    unfolding v_def e_def using d by (intro round_significand_le)
  then have "real_of_int (round_significand n d) * 2 powi e \<le> real_of_int B * 2 powi e"
    using epos by (intro mult_right_mono) simp_all
  with grid show ?thesis by (simp add: rounded_value_def e_def)
qed

lemma two_powi_1024: "(2::real) powi 1024 = 2 ^ 53 * 2 powi 971"
proof -
  have "(2::real) powi (53 + 971) = 2 powi 53 * 2 powi 971"
    by (rule powi_two_add)
  then show ?thesis by simp
qed

lemma round_double_cases:
  assumes n: "0 < n" and d: "0 < d"
  shows "2 powi 1024 \<le> rounded_value n d \<and> round_double s n d = Inf s \<or>
     rounded_value n d < 2 powi 1024 \<and>
     (\<exists>m e. round_double s n d = Fin s m e \<and> valid_double (Fin s m e) \<and>
        real_of_int m * 2 powi e = rounded_value n d)"
proof -
  define m where "m = round_significand n d"
  define e where "e = round_exponent n d"
  define R where "R = rounded_value n d"
  have R: "R = real_of_int m * 2 powi e"
    by (simp add: R_def rounded_value_def m_def e_def)
  have m: "0 \<le> m" "m \<le> 2 ^ 53"
    unfolding m_def using round_significand_bounds(1,2) [OF n d] by simp_all
  have e: "- 1074 \<le> e" by (simp add: e_def round_exponent_def)
  have normal: "2 ^ 52 \<le> m" if "e \<noteq> - 1074"
  proof -
    from that round_exponent_cases [of n d]
    have "round_exponent n d = floor_log2 n d - 52" by (auto simp: e_def)
    then show ?thesis
      unfolding m_def using round_significand_bounds(3) [OF n d] by simp
  qed
  have rd: "round_double s n d =
      (if m = 2 ^ 53 then (if 971 < e + 1 then Inf s else Fin s (2 ^ 52) (e + 1))
       else (if 971 < e then Inf s else Fin s m e))"
    using n by (simp add: round_double_def Let_def m_def e_def)
  have mr: "real_of_int m \<le> 2 ^ 53" "0 \<le> real_of_int m"
    using m by (metis of_int_le_iff of_int_numeral of_int_power, simp)
  show ?thesis
  proof (cases "m = 2 ^ 53")
    case top: True
    show ?thesis
    proof (cases "971 \<le> e")
      case True
      have "2 powi 1024 = 2 ^ 53 * (2::real) powi 971" by (rule two_powi_1024)
      also have "\<dots> \<le> 2 ^ 53 * 2 powi e"
        using True by (intro mult_left_mono powi_two_mono) simp_all
      finally have "2 powi 1024 \<le> R" using top by (simp add: R)
      moreover have "round_double s n d = Inf s" using top True by (simp add: rd)
      ultimately show ?thesis by (simp add: R_def)
    next
      case False
      have "R = 2 ^ 53 * 2 powi e" using top by (simp add: R)
      also have "\<dots> \<le> 2 ^ 53 * 2 powi 970"
        using False by (intro mult_left_mono powi_two_mono) simp_all
      also have "\<dots> < 2 ^ 53 * (2::real) powi 971"
        by (intro mult_strict_left_mono power_int_strict_increasing) simp_all
      finally have "R < 2 powi 1024" by (simp only: two_powi_1024)
      moreover have "round_double s n d = Fin s (2 ^ 52) (e + 1)"
        using top False by (simp add: rd)
      moreover have "valid_double (Fin s (2 ^ 52) (e + 1))"
        using e False by (simp add: valid_double_def)
      moreover have "real_of_int (2 ^ 52) * 2 powi (e + 1) = R"
        using top by (simp add: R powi_two_add)
      ultimately show ?thesis unfolding R_def by blast
    qed
  next
    case below: False
    with m have lt: "m < 2 ^ 53" by simp
    show ?thesis
    proof (cases "971 < e")
      case True
      then have "e \<noteq> - 1074" by simp
      then have "2 ^ 52 \<le> m" by (rule normal)
      then have m52: "2 ^ 52 \<le> real_of_int m"
        by (metis of_int_le_iff of_int_numeral of_int_power)
      have "2 powi 1024 = 2 ^ 52 * (2::real) powi 972"
      proof -
        have "(2::real) powi (52 + 972) = 2 powi 52 * 2 powi 972" by (rule powi_two_add)
        then show ?thesis by simp
      qed
      also have "\<dots> \<le> 2 ^ 52 * 2 powi e"
        using True by (intro mult_left_mono powi_two_mono) simp_all
      also have "\<dots> \<le> real_of_int m * 2 powi e"
        using m52 by (intro mult_right_mono) simp_all
      finally have "2 powi 1024 \<le> R" by (simp add: R)
      moreover have "round_double s n d = Inf s" using below True by (simp add: rd)
      ultimately show ?thesis by (simp add: R_def)
    next
      case False
      have "real_of_int m < 2 ^ 53"
        using lt by (metis of_int_less_iff of_int_numeral of_int_power)
      then have "R < 2 ^ 53 * 2 powi e"
        unfolding R by (intro mult_strict_right_mono) simp_all
      also have "\<dots> \<le> 2 ^ 53 * 2 powi 971"
        using False by (intro mult_left_mono powi_two_mono) simp_all
      finally have "R < 2 powi 1024" by (simp only: two_powi_1024)
      moreover have "round_double s n d = Fin s m e"
        using below False by (simp add: rd)
      moreover have "valid_double (Fin s m e)"
      proof (cases "e = - 1074")
        case True
        with m lt show ?thesis by (auto simp: valid_double_def)
      next
        case ne: False
        with normal have "2 ^ 52 \<le> m" by simp
        with lt e False show ?thesis by (simp add: valid_double_def)
      qed
      ultimately show ?thesis unfolding R_def R [unfolded R_def] by blast
    qed
  qed
qed

lemma round_double_valid:
  assumes "0 \<le> n" and "0 < d"
  shows "valid_double (round_double s n d)"
proof (cases "n = 0")
  case True
  then show ?thesis by (simp add: round_double_def valid_double_def)
next
  case False
  with assms have "0 < n" by simp
  from round_double_cases [OF this assms(2), of s] show ?thesis
    by (auto simp: valid_double_def)
qed

lemma round_double_finite:
  assumes "0 < n" and "0 < d" and "rounded_value n d < 2 powi 1024"
  shows "\<exists>m e. round_double s n d = Fin s m e \<and> valid_double (Fin s m e) \<and>
     real_of_int m * 2 powi e = rounded_value n d"
  using round_double_cases [OF assms(1,2), of s] assms(3) by auto

lemma round_double_exact:
  assumes valid: "valid_double (Fin s m e)" and m: "0 < m"
    and n: "0 < n" and d: "0 < d"
    and v: "real_of_int n / real_of_int d = real_of_int m * 2 powi e"
  shows "round_double s n d = Fin s m e"
proof -
  define k where "k = floor_log2 n d"
  have k: "2 powi k \<le> real_of_int m * 2 powi e" "real_of_int m * 2 powi e < 2 powi (k + 1)"
    unfolding k_def using floor_log2_bounds [OF n d] v by simp_all
  from valid have m53: "m < 2 ^ 53" and e: "- 1074 \<le> e" "e \<le> 971"
    by (auto simp: valid_double_def)
  have mr: "real_of_int m < 2 ^ 53"
    using m53 by (metis of_int_less_iff of_int_numeral of_int_power)
  have rexp: "round_exponent n d = e"
  proof (cases "2 ^ 52 \<le> m")
    case True
    then have "2 ^ 52 \<le> real_of_int m"
      by (metis of_int_le_iff of_int_numeral of_int_power)
    then have "2 ^ 52 * 2 powi e \<le> real_of_int m * 2 powi e"
      by (intro mult_right_mono) simp_all
    then have lo: "2 powi (52 + e) \<le> real_of_int m * 2 powi e"
      by (simp add: powi_two_add)
    have "real_of_int m * 2 powi e < 2 ^ 53 * 2 powi e"
      using mr by (intro mult_strict_right_mono) simp_all
    then have hi: "real_of_int m * 2 powi e < 2 powi ((52 + e) + 1)"
      by (simp add: powi_two_add)
    have "52 + e = k" using lo hi k by (rule binade_unique)
    then show ?thesis using e by (simp add: round_exponent_def k_def)
  next
    case False
    with valid have e_sub: "e = - 1074" by (auto simp: valid_double_def)
    from False have "real_of_int m < 2 ^ 52"
      by (metis not_le of_int_less_iff of_int_numeral of_int_power)
    then have "real_of_int m * 2 powi e < 2 ^ 52 * 2 powi e"
      by (intro mult_strict_right_mono) simp_all
    then have "real_of_int m * 2 powi e < 2 powi (52 + e)"
      by (simp add: powi_two_add)
    with k(1) have "(2::real) powi k < 2 powi (52 + e)" by simp
    then have "k < 52 + e" by (rule powi_two_less_imp)
    then show ?thesis using e_sub by (simp add: round_exponent_def k_def)
  qed
  have sig: "round_significand n d = m"
    using d v by (intro round_significand_exact) (simp_all add: rexp)
  from m have "n \<noteq> 0" using n by simp
  then show ?thesis
    using m53 e by (simp add: round_double_def Let_def rexp sig)
qed

section \<open>The operations on finite non-negative doubles\<close>

lemma scale_den_pos: "0 < scale_den e"
  by (simp add: scale_den_def)

lemma scale_num_pos: "0 < m \<Longrightarrow> 0 < scale_num m e"
  by (simp add: scale_num_def)

lemma scale_fraction:
  "real_of_int (scale_num m e) / real_of_int (scale_den e) = real_of_int m * 2 powi e"
proof (cases "0 \<le> e")
  case True
  then show ?thesis by (simp add: scale_num_def scale_den_def power_int_nonneg_exp)
next
  case False
  then have "(2::real) powi e = 1 / 2 ^ nat (- e)"
    using power_int_minus_divide [of "2::real" "- e"] by (simp add: power_int_nonneg_exp)
  with False show ?thesis by (simp add: scale_num_def scale_den_def)
qed

lemma fin_nonneg_cases:
  assumes "fin_nonneg x"
  obtains m e where "x = Fin False m e" "valid_double (Fin False m e)" "0 \<le> m"
    "valof x = real_of_int m * 2 powi e"
proof -
  from assms obtain m e where x: "x = Fin False m e" and v: "valid_double (Fin False m e)"
    by (cases x) (auto simp: fin_nonneg_def)
  from v have "0 \<le> m" by (auto simp: valid_double_def)
  moreover have "valof x = real_of_int m * 2 powi e" by (simp add: x valof_def)
  ultimately show ?thesis using that x v by blast
qed



lemma valof_nonneg: "fin_nonneg x \<Longrightarrow> 0 \<le> valof x"
  by (erule fin_nonneg_cases) simp

lemma valof_below_overflow:
  assumes "fin_nonneg x"
  shows "valof x < 2 powi 1024"
proof -
  from assms obtain m e where x: "valof x = real_of_int m * 2 powi e"
    and v: "valid_double (Fin False m e)"
    by (rule fin_nonneg_cases)
  from v have "m < 2 ^ 53" "e \<le> 971" by (auto simp: valid_double_def)
  then have "real_of_int m < 2 ^ 53"
    by (metis of_int_less_iff of_int_numeral of_int_power)
  then have "real_of_int m * 2 powi e < 2 ^ 53 * 2 powi e"
    by (intro mult_strict_right_mono) simp_all
  also have "\<dots> \<le> 2 ^ 53 * 2 powi 971"
    using \<open>e \<le> 971\<close> by (intro mult_left_mono powi_two_mono) simp_all
  finally show ?thesis by (simp only: x two_powi_1024)
qed

text \<open>Rounding never crosses a double: a value between two doubles rounds to a double
  between them.\<close>

lemma round_sandwich:
  assumes n: "0 < n" and d: "0 < d"
    and a: "fin_nonneg a" and b: "fin_nonneg b"
    and lo: "valof a \<le> real_of_int n / real_of_int d"
    and hi: "real_of_int n / real_of_int d \<le> valof b"
  shows "fin_nonneg (round_double False n d)"
    and "valof a \<le> valof (round_double False n d)"
    and "valof (round_double False n d) \<le> valof b"
proof -
  from a obtain ma ea where va: "valid_double (Fin False ma ea)"
    "valof a = real_of_int ma * 2 powi ea"
    by (rule fin_nonneg_cases)
  from b obtain mb eb where vb: "valid_double (Fin False mb eb)"
    "valof b = real_of_int mb * 2 powi eb"
    by (rule fin_nonneg_cases)
  have R_lo: "valof a \<le> rounded_value n d"
    unfolding va(2) using n d va(1) lo [unfolded va(2)] by (rule rounded_value_lower)
  have R_hi: "rounded_value n d \<le> valof b"
    unfolding vb(2) using n d vb(1) hi [unfolded vb(2)] by (rule rounded_value_upper)
  have "rounded_value n d < 2 powi 1024"
    using R_hi valof_below_overflow [OF b] by simp
  with round_double_finite [OF n d] obtain m e where
    r: "round_double False n d = Fin False m e" "valid_double (Fin False m e)"
      "real_of_int m * 2 powi e = rounded_value n d"
    by blast
  show "fin_nonneg (round_double False n d)"
    using r(1,2) by (simp add: fin_nonneg_def)
  show "valof a \<le> valof (round_double False n d)"
    using R_lo r(1,3) by (simp add: valof_def)
  show "valof (round_double False n d) \<le> valof b"
    using R_hi r(1,3) by (simp add: valof_def)
qed

lemma fin_nonneg_zero: "fin_nonneg (Fin False 0 (- 1074))"
  by (simp add: fin_nonneg_def valid_double_def)

lemma valof_zero: "valof (Fin False 0 e) = 0"
  by (simp add: valof_def)

lemma d_mul_sandwich:
  assumes x: "fin_nonneg x" and y: "fin_nonneg y"
    and a: "fin_nonneg a" and b: "fin_nonneg b"
    and lo: "valof a \<le> valof x * valof y" and hi: "valof x * valof y \<le> valof b"
  shows "fin_nonneg (d_mul x y)"
    and "valof a \<le> valof (d_mul x y)"
    and "valof (d_mul x y) \<le> valof b"
proof -
  from x obtain m1 e1 where x': "x = Fin False m1 e1" "0 \<le> m1"
    "valof x = real_of_int m1 * 2 powi e1"
    by (rule fin_nonneg_cases)
  from y obtain m2 e2 where y': "y = Fin False m2 e2" "0 \<le> m2"
    "valof y = real_of_int m2 * 2 powi e2"
    by (rule fin_nonneg_cases)
  define N where "N = scale_num (m1 * m2) (e1 + e2)"
  define D where "D = scale_den (e1 + e2)"
  have mul: "d_mul x y = round_double False N D"
    by (simp add: x'(1) y'(1) N_def D_def)
  have frac: "real_of_int N / real_of_int D = valof x * valof y"
    unfolding N_def D_def scale_fraction by (simp add: x'(3) y'(3) powi_two_add)
  have D: "0 < D" unfolding D_def by (rule scale_den_pos)
  have res: "fin_nonneg (d_mul x y) \<and> valof a \<le> valof (d_mul x y) \<and> valof (d_mul x y) \<le> valof b"
  proof (cases "m1 * m2 = 0")
    case True
    then have "N = 0" by (simp add: N_def scale_num_def)
    then have z: "d_mul x y = Fin False 0 (- 1074)" by (simp add: mul round_double_def)
    from True have "valof x * valof y = 0" by (auto simp: x'(3) y'(3))
    with lo hi valof_nonneg [OF a] show ?thesis
      by (simp add: z fin_nonneg_zero valof_zero)
  next
    case False
    with x'(2) y'(2) have "0 < m1 * m2"
      by (metis mult_nonneg_nonneg order_le_less)
    then have N: "0 < N" unfolding N_def by (rule scale_num_pos)
    from round_sandwich [OF N D a b] lo hi show ?thesis
      by (simp add: frac mul)
  qed
  from res show "fin_nonneg (d_mul x y)" "valof a \<le> valof (d_mul x y)"
    "valof (d_mul x y) \<le> valof b"
    by simp_all
qed


lemma aligned_sum:
  "real_of_int (m1 * 2 ^ nat (e1 - min e1 e2) + m2 * 2 ^ nat (e2 - min e1 e2))
     * 2 powi (min e1 e2) =
   real_of_int m1 * 2 powi e1 + real_of_int m2 * 2 powi e2"
proof -
  define X where "X = m1 * 2 ^ nat (e1 - min e1 e2)"
  define Y where "Y = m2 * 2 ^ nat (e2 - min e1 e2)"
  have g1: "real_of_int m1 * 2 powi e1 = real_of_int X * 2 powi (min e1 e2)"
    unfolding X_def by (rule on_grid) simp
  have g2: "real_of_int m2 * 2 powi e2 = real_of_int Y * 2 powi (min e1 e2)"
    unfolding Y_def by (rule on_grid) simp
  have "real_of_int (X + Y) * 2 powi (min e1 e2) =
      real_of_int X * 2 powi (min e1 e2) + real_of_int Y * 2 powi (min e1 e2)"
    by (simp add: algebra_simps)
  then show ?thesis by (simp only: g1 g2 X_def [symmetric] Y_def [symmetric])
qed


section \<open>Doubles that are not negative\<close>

lemma nonneg_double_round:
  assumes "0 \<le> n" and "0 < d"
  shows "nonneg_double (round_double False n d)"
proof (cases "n = 0")
  case True
  then show ?thesis by (simp add: round_double_def nonneg_double_def valid_double_def)
next
  case False
  with assms have "0 < n" by simp
  from round_double_cases [OF this assms(2), of False] show ?thesis
    by (auto simp: nonneg_double_def)
qed

lemma nonneg_double_cases:
  assumes "nonneg_double x"
  obtains "x = NaN" | "x = Inf False"
    | m e where "x = Fin False m e" "valid_double (Fin False m e)" "0 \<le> m"
proof (cases x)
  case NaN
  then show ?thesis using that by simp
next
  case (Inf s)
  with assms have "x = Inf False" by (simp add: nonneg_double_def)
  then show ?thesis using that by simp
next
  case (Fin s m e)
  show ?thesis
  proof (cases s)
    case True
    with assms Fin show ?thesis by (simp add: nonneg_double_def)
  next
    case False
    with assms Fin have "x = Fin False m e" "valid_double (Fin False m e)"
      by (simp_all add: nonneg_double_def)
    moreover from this have "0 \<le> m" by (auto simp: valid_double_def)
    ultimately show ?thesis using that by blast
  qed
qed

lemma nonneg_double_mul:
  assumes "nonneg_double x" and "nonneg_double y"
  shows "nonneg_double (d_mul x y)"
proof -
  from assms(1) show ?thesis
  proof (cases rule: nonneg_double_cases)
    assume "x = NaN"
    then show ?thesis by (simp add: nonneg_double_def)
  next
    assume x: "x = Inf False"
    from assms(2) show ?thesis
      by (cases rule: nonneg_double_cases) (simp_all add: x nonneg_double_def)
  next
    fix m1 e1
    assume x: "x = Fin False m1 e1" and m1: "0 \<le> m1"
    from assms(2) show ?thesis
    proof (cases rule: nonneg_double_cases)
      assume "y = NaN"
      then show ?thesis by (simp add: x nonneg_double_def)
    next
      assume "y = Inf False"
      then show ?thesis by (simp add: x nonneg_double_def)
    next
      fix m2 e2
      assume y: "y = Fin False m2 e2" and m2: "0 \<le> m2"
      have "0 \<le> scale_num (m1 * m2) (e1 + e2)"
        using m1 m2 by (simp add: scale_num_def)
      then show ?thesis
        using scale_den_pos by (simp add: x y nonneg_double_round)
    qed
  qed
qed

lemma nonneg_double_div:
  assumes "nonneg_double x" and "nonneg_double y"
  shows "nonneg_double (d_div x y)"
proof -
  from assms(1) show ?thesis
  proof (cases rule: nonneg_double_cases)
    assume "x = NaN"
    then show ?thesis by (simp add: nonneg_double_def)
  next
    assume x: "x = Inf False"
    from assms(2) show ?thesis
      by (cases rule: nonneg_double_cases) (simp_all add: x nonneg_double_def)
  next
    fix m1 e1
    assume x: "x = Fin False m1 e1" and m1: "0 \<le> m1"
    from assms(2) show ?thesis
    proof (cases rule: nonneg_double_cases)
      assume "y = NaN"
      then show ?thesis by (simp add: x nonneg_double_def)
    next
      assume "y = Inf False"
      then show ?thesis by (simp add: x nonneg_double_def valid_double_def)
    next
      fix m2 e2
      assume y: "y = Fin False m2 e2" and m2: "0 \<le> m2"
      show ?thesis
      proof (cases "m2 = 0")
        case True
        then show ?thesis by (simp add: x y nonneg_double_def)
      next
        case False
        with m2 have "0 < m2" by simp
        then have "0 < scale_den e1 * scale_num m2 e2"
          using scale_den_pos [of e1] scale_num_pos [of m2 e2] by simp
        moreover have "0 \<le> scale_num m1 e1 * scale_den e2"
          using m1 scale_den_pos [of e2] by (simp add: scale_num_def)
        ultimately show ?thesis
          using False by (simp add: x y nonneg_double_round)
      qed
    qed
  qed
qed

lemma nonneg_double_add:
  assumes "nonneg_double x" and "nonneg_double y"
  shows "nonneg_double (d_add x y)"
proof -
  from assms(1) show ?thesis
  proof (cases rule: nonneg_double_cases)
    assume "x = NaN"
    then show ?thesis by (simp add: nonneg_double_def)
  next
    assume x: "x = Inf False"
    from assms(2) show ?thesis
      by (cases rule: nonneg_double_cases) (simp_all add: x nonneg_double_def)
  next
    fix m1 e1
    assume x: "x = Fin False m1 e1" and m1: "0 \<le> m1"
    from assms(2) show ?thesis
    proof (cases rule: nonneg_double_cases)
      assume "y = NaN"
      then show ?thesis by (simp add: x nonneg_double_def)
    next
      assume "y = Inf False"
      then show ?thesis by (simp add: x nonneg_double_def)
    next
      fix m2 e2
      assume y: "y = Fin False m2 e2" and m2: "0 \<le> m2"
      define A where "A = m1 * 2 ^ nat (e1 - min e1 e2) + m2 * 2 ^ nat (e2 - min e1 e2)"
      have A0: "0 \<le> A" unfolding A_def using m1 m2 by simp
      have add: "d_add x y =
          (if A = 0 then Fin False 0 (- 1074)
           else round_double False (scale_num A (min e1 e2)) (scale_den (min e1 e2)))"
        using A0 by (simp add: x y Let_def A_def)
      have "0 \<le> scale_num A (min e1 e2)" using A0 by (simp add: scale_num_def)
      then have "nonneg_double (round_double False (scale_num A (min e1 e2)) (scale_den (min e1 e2)))"
        using scale_den_pos by (rule nonneg_double_round)
      then show ?thesis
        by (simp add: add nonneg_double_def valid_double_def)
    qed
  qed
qed

lemma nonneg_double_int:
  assumes "0 \<le> k"
  shows "nonneg_double (int_to_double k)"
  using assms by (simp add: int_to_double_def nonneg_double_round)

lemma nonneg_double_ull: "nonneg_double (ull_to_double w)"
  by (simp add: ull_to_double_def nonneg_double_int)

lemma nonneg_double_consts:
  "nonneg_double d_zero" "nonneg_double d_one" "nonneg_double d_two" "nonneg_double d_four"
  by (simp_all add: nonneg_double_def valid_double_def d_zero_def d_one_def d_two_def d_four_def)

text \<open>Adding to \<open>0.0\<close> gives back every double but \<open>-0.0\<close>.\<close>

lemma d_add_zero_left:
  assumes valid: "valid_double x" and nz: "x \<noteq> Fin True 0 (- 1074)"
  shows "d_add d_zero x = x"
proof (cases x)
  case NaN
  then show ?thesis by (simp add: d_zero_def)
next
  case (Inf s)
  then show ?thesis by (simp add: d_zero_def)
next
  case (Fin s m e)
  from valid Fin have m0: "0 \<le> m" and e: "- 1074 \<le> e"
    and v: "valid_double (Fin s m e)"
    by (auto simp: valid_double_def)
  show ?thesis
  proof (cases "m = 0")
    case True
    with v have "e = - 1074" by (auto simp: valid_double_def)
    with True nz Fin have "s = False" by (cases s) simp_all
    with True \<open>e = - 1074\<close> Fin show ?thesis by (simp add: d_zero_def)
  next
    case False
    with m0 have m: "0 < m" by simp
    define A where "A = m * 2 ^ nat (e + 1074)"
    have A: "0 < A" unfolding A_def using m by simp
    have min: "min (- 1074) e = - 1074" using e by simp
    have add: "d_add d_zero (Fin s m e) =
        round_double s (scale_num A (- 1074)) (scale_den (- 1074))"
    proof -
      have pos3: "0 < m * 2 ^ nat (e + 1074)"
        using A by (simp add: A_def)
      then have pos: "\<not> m * 2 ^ nat (e + 1074) < 0" "\<not> m * 2 ^ nat (e + 1074) = 0"
        "0 < m * 2 ^ nat (e + 1074)"
        by linarith+
      show ?thesis
      proof (cases s)
        case True
        with pos m show ?thesis
          by (simp add: d_zero_def Let_def min A_def mult_less_0_iff zero_less_mult_iff)
      next
        case False
        with pos m show ?thesis
          by (simp add: d_zero_def Let_def min A_def mult_less_0_iff zero_less_mult_iff)
      qed
    qed
    have "real_of_int (scale_num A (- 1074)) / real_of_int (scale_den (- 1074)) =
        real_of_int A * 2 powi (- 1074)"
      by (rule scale_fraction)
    also have "\<dots> = real_of_int m * 2 powi e"
    proof -
      have shift: "e - (- 1074) = e + 1074" by simp
      have "real_of_int m * 2 powi e =
          real_of_int (m * 2 ^ nat (e - (- 1074))) * 2 powi (- 1074)"
        using e by (rule on_grid)
      then show ?thesis unfolding A_def shift by (rule sym)
    qed
    finally have frac: "real_of_int (scale_num A (- 1074)) / real_of_int (scale_den (- 1074)) =
        real_of_int m * 2 powi e" .
    have "round_double s (scale_num A (- 1074)) (scale_den (- 1074)) = Fin s m e"
      using v m scale_num_pos [OF A] scale_den_pos frac by (rule round_double_exact)
    then show ?thesis by (simp only: Fin add)
  qed
qed

section \<open>Some values\<close>

lemma int_to_double_0: "int_to_double 0 = d_zero"
  by (simp add: int_to_double_def round_double_def d_zero_def)

lemma bit_length_1: "bit_length 1 = 1"
  by (simp add: bit_length.simps)

lemma int_to_double_1: "int_to_double 1 = d_one"
  by (simp add: int_to_double_def round_double_def round_exponent_def round_significand_def
      floor_log2_def bit_length_1 round_half_even_def d_one_def Let_def)

lemma d_one_exact:
  assumes "0 < n" and "n = d"
  shows "round_double False n d = d_one"
proof -
  have "valid_double (Fin False (2 ^ 52) (- 52))"
    by (simp add: valid_double_def)
  moreover have "real_of_int n / real_of_int d = real_of_int (2 ^ 52) * 2 powi (- 52)"
    using assms by (simp add: power_int_minus)
  ultimately have "round_double False n d = Fin False (2 ^ 52) (- 52)"
    using assms by (intro round_double_exact) simp_all
  then show ?thesis by (simp add: d_one_def)
qed

lemma d_div_one_one: "d_div d_one d_one = d_one"
proof -
  have "d_div d_one d_one =
      round_double False (scale_num (2 ^ 52) (- 52) * scale_den (- 52))
        (scale_den (- 52) * scale_num (2 ^ 52) (- 52))"
    by (simp add: d_one_def)
  also have "\<dots> = d_one"
    by (rule d_one_exact) (simp_all add: scale_num_def scale_den_def)
  finally show ?thesis .
qed

lemma d_mul_zero_one: "d_mul d_zero d_one = d_zero"
  by (simp add: d_zero_def d_one_def round_double_def scale_num_def)

lemma d_mul_one_one: "d_mul d_one d_one = d_one"
proof -
  have eq: "scale_num (2 ^ 52 * 2 ^ 52) (- 52 + - 52) = scale_den (- 52 + - 52)"
    by (simp add: scale_num_def scale_den_def)
  have "d_mul d_one d_one =
      round_double False (scale_num (2 ^ 52 * 2 ^ 52) (- 52 + - 52)) (scale_den (- 52 + - 52))"
    by (simp add: d_one_def)
  also have "\<dots> = d_one"
    using scale_den_pos [of "- 52 + - 52"] eq by (intro d_one_exact) simp_all
  finally show ?thesis .
qed

lemma d_sub_one_zero: "d_sub d_one d_zero = d_one"
proof -
  have "d_sub d_one d_zero = d_add (Fin False (2 ^ 52) (- 52)) (Fin True 0 (- 1074))"
    by (simp add: d_sub_def d_neg_def d_one_def d_zero_def)
  also have "\<dots> = round_double False (scale_num (2 ^ 52 * 2 ^ 1022) (- 1074)) (scale_den (- 1074))"
    by (simp add: Let_def)
  also have "\<dots> = d_one"
    by (rule d_one_exact) (simp_all add: scale_num_def scale_den_def)
  finally show ?thesis .
qed


section \<open>The error of one rounding\<close>

lemma round_double_value:
  assumes "0 < n" and "0 < d" and "rounded_value n d < 2 powi 1024"
  shows "fin_nonneg (round_double False n d)"
    and "valof (round_double False n d) = rounded_value n d"
proof -
  from round_double_finite [OF assms] obtain m e where
    r: "round_double False n d = Fin False m e" "valid_double (Fin False m e)"
      "real_of_int m * 2 powi e = rounded_value n d"
    by blast
  show "fin_nonneg (round_double False n d)"
    using r(1,2) by (simp add: fin_nonneg_def)
  show "valof (round_double False n d) = rounded_value n d"
    using r(1,3) by (simp add: valof_def)
qed

text \<open>Above the subnormal range the error of a rounding is at most \<open>2^-53\<close> of the value.\<close>

lemma rounded_value_relative_error:
  assumes n: "0 < n" and d: "0 < d"
    and normal: "2 powi (- 1022) \<le> real_of_int n / real_of_int d"
  shows "\<bar>rounded_value n d - real_of_int n / real_of_int d\<bar>
     \<le> real_of_int n / real_of_int d * 2 powi (- 53)"
proof -
  define v where "v = real_of_int n / real_of_int d"
  define k where "k = floor_log2 n d"
  have k: "2 powi k \<le> v" "v < 2 powi (k + 1)"
    unfolding v_def k_def using floor_log2_bounds [OF n d] by simp_all
  have "(2::real) powi (- 1022) < 2 powi (k + 1)"
    using normal [folded v_def] k(2) by (rule le_less_trans)
  then have "- 1022 < k + 1" by (rule powi_two_less_imp)
  then have e: "round_exponent n d = k - 52"
    by (simp add: round_exponent_def k_def)
  have "\<bar>rounded_value n d - v\<bar> \<le> 2 powi (k - 52) / 2"
    unfolding v_def using rounded_value_error [OF d, of n] by (simp add: e)
  also have "2 powi (k - 52) / 2 = 2 powi k * (2::real) powi (- 53)"
  proof -
    have "(2::real) powi (k - 52) = 2 powi (k + - 53) * 2 powi 1"
      by (simp only: powi_two_add [symmetric]) simp
    also have "\<dots> = 2 powi k * 2 powi (- 53) * 2"
      by (simp only: powi_two_add) simp
    finally show ?thesis by simp
  qed
  also have "\<dots> \<le> v * 2 powi (- 53)"
    using k(1) by (intro mult_right_mono) simp_all
  finally show ?thesis by (simp add: v_def)
qed

lemma round_double_relative_error:
  assumes n: "0 < n" and d: "0 < d"
    and normal: "2 powi (- 1022) \<le> real_of_int n / real_of_int d"
    and small: "real_of_int n / real_of_int d \<le> 2 powi 1000"
  shows "fin_nonneg (round_double False n d)"
    and "\<bar>valof (round_double False n d) - real_of_int n / real_of_int d\<bar>
       \<le> real_of_int n / real_of_int d * 2 powi (- 53)"
proof -
  define v where "v = real_of_int n / real_of_int d"
  have err: "\<bar>rounded_value n d - v\<bar> \<le> v * 2 powi (- 53)"
    unfolding v_def using n d normal by (rule rounded_value_relative_error)
  have vpos: "0 < v" using n d by (simp add: v_def)
  define u :: real where "u = 2 powi (- 53)"
  have "u \<le> 2 powi 0" unfolding u_def by (intro powi_two_mono) simp
  then have "v * u \<le> v * 1"
    using vpos by (intro mult_left_mono) simp_all
  moreover have "\<bar>rounded_value n d - v\<bar> \<le> v * u"
    using err by (simp only: u_def)
  ultimately have "rounded_value n d \<le> 2 * v" by linarith
  also have "\<dots> \<le> 2 powi 1 * 2 powi 1000"
    using small by (simp add: v_def)
  also have "\<dots> = 2 powi 1001" by (simp only: powi_two_add [symmetric]) simp
  also have "\<dots> < (2::real) powi 1024"
    by (intro power_int_strict_increasing) simp_all
  finally have fin: "rounded_value n d < 2 powi 1024" .
  show "fin_nonneg (round_double False n d)"
    using n d fin by (rule round_double_value)
  show "\<bar>valof (round_double False n d) - real_of_int n / real_of_int d\<bar>
       \<le> real_of_int n / real_of_int d * 2 powi (- 53)"
    using err round_double_value(2) [OF n d fin] by (simp add: v_def)
qed

lemma d_mul_round:
  assumes x: "fin_nonneg x" and y: "fin_nonneg y" and pos: "0 < valof x * valof y"
  shows "\<exists>N D. 0 < N \<and> 0 < D \<and> d_mul x y = round_double False N D \<and>
     real_of_int N / real_of_int D = valof x * valof y"
proof -
  from x obtain m1 e1 where x': "x = Fin False m1 e1" "0 \<le> m1"
    "valof x = real_of_int m1 * 2 powi e1"
    by (rule fin_nonneg_cases)
  from y obtain m2 e2 where y': "y = Fin False m2 e2" "0 \<le> m2"
    "valof y = real_of_int m2 * 2 powi e2"
    by (rule fin_nonneg_cases)
  define N where "N = scale_num (m1 * m2) (e1 + e2)"
  define D where "D = scale_den (e1 + e2)"
  have "m1 * m2 \<noteq> 0" using pos by (auto simp: x'(3) y'(3))
  with x'(2) y'(2) have "0 < m1 * m2"
    by (metis mult_nonneg_nonneg order_le_less)
  then have "0 < N" unfolding N_def by (rule scale_num_pos)
  moreover have "0 < D" unfolding D_def by (rule scale_den_pos)
  moreover have "d_mul x y = round_double False N D"
    by (simp add: x'(1) y'(1) N_def D_def)
  moreover have "real_of_int N / real_of_int D = valof x * valof y"
    unfolding N_def D_def scale_fraction by (simp add: x'(3) y'(3) powi_two_add)
  ultimately show ?thesis by blast
qed

lemma d_div_round:
  assumes x: "fin_nonneg x" and y: "fin_nonneg y" and xpos: "0 < valof x" and ypos: "0 < valof y"
  shows "\<exists>N D. 0 < N \<and> 0 < D \<and> d_div x y = round_double False N D \<and>
     real_of_int N / real_of_int D = valof x / valof y"
proof -
  from x obtain m1 e1 where x': "x = Fin False m1 e1" "0 \<le> m1"
    "valof x = real_of_int m1 * 2 powi e1"
    by (rule fin_nonneg_cases)
  from y obtain m2 e2 where y': "y = Fin False m2 e2" "0 \<le> m2"
    "valof y = real_of_int m2 * 2 powi e2"
    by (rule fin_nonneg_cases)
  from ypos have m2: "0 < m2"
    using y'(2,3) by (cases "m2 = 0") simp_all
  from xpos have m1: "0 < m1"
    using x'(2,3) by (cases "m1 = 0") simp_all
  define N where "N = scale_num m1 e1 * scale_den e2"
  define D where "D = scale_den e1 * scale_num m2 e2"
  have "0 < N"
    unfolding N_def using scale_num_pos [OF m1, of e1] scale_den_pos [of e2] by simp
  moreover have "0 < D"
    unfolding D_def using scale_den_pos [of e1] scale_num_pos [OF m2, of e2] by simp
  moreover have "d_div x y = round_double False N D"
    using m2 by (simp add: x'(1) y'(1) N_def D_def)
  moreover have "real_of_int N / real_of_int D = valof x / valof y"
  proof -
    have "real_of_int N / real_of_int D =
        (real_of_int (scale_num m1 e1) / real_of_int (scale_den e1)) /
        (real_of_int (scale_num m2 e2) / real_of_int (scale_den e2))"
      by (simp add: N_def D_def)
    then show ?thesis by (simp only: scale_fraction x'(3) y'(3))
  qed
  ultimately show ?thesis by blast
qed

lemma d_mul_relative_error:
  assumes x: "fin_nonneg x" and y: "fin_nonneg y"
    and normal: "2 powi (- 1022) \<le> valof x * valof y"
    and small: "valof x * valof y \<le> 2 powi 1000"
  shows "fin_nonneg (d_mul x y)"
    and "\<bar>valof (d_mul x y) - valof x * valof y\<bar> \<le> valof x * valof y * 2 powi (- 53)"
proof -
  have "0 < (2::real) powi (- 1022)" by simp
  with normal have pos: "0 < valof x * valof y" by linarith
  from d_mul_round [OF x y pos] obtain N D where r: "0 < N" "0 < D"
    "d_mul x y = round_double False N D" "real_of_int N / real_of_int D = valof x * valof y"
    by blast
  from round_double_relative_error [OF r(1,2)] normal small
  show "fin_nonneg (d_mul x y)"
    and "\<bar>valof (d_mul x y) - valof x * valof y\<bar> \<le> valof x * valof y * 2 powi (- 53)"
    by (simp_all add: r(3,4))
qed

lemma d_div_relative_error:
  assumes x: "fin_nonneg x" and y: "fin_nonneg y" and ypos: "0 < valof y"
    and normal: "2 powi (- 1022) \<le> valof x / valof y"
    and small: "valof x / valof y \<le> 2 powi 1000"
  shows "fin_nonneg (d_div x y)"
    and "\<bar>valof (d_div x y) - valof x / valof y\<bar> \<le> valof x / valof y * 2 powi (- 53)"
proof -
  have "0 < (2::real) powi (- 1022)" by simp
  with normal have "0 < valof x / valof y" by linarith
  with ypos have xpos: "0 < valof x" by (simp add: zero_less_divide_iff)
  from d_div_round [OF x y xpos ypos] obtain N D where r: "0 < N" "0 < D"
    "d_div x y = round_double False N D" "real_of_int N / real_of_int D = valof x / valof y"
    by blast
  from round_double_relative_error [OF r(1,2)] normal small
  show "fin_nonneg (d_div x y)"
    and "\<bar>valof (d_div x y) - valof x / valof y\<bar> \<le> valof x / valof y * 2 powi (- 53)"
    by (simp_all add: r(3,4))
qed

text \<open>The integers below \<open>2^53\<close> convert without error.\<close>

lemma int_to_double_exact:
  assumes "0 \<le> k" and "k < 2 ^ 53"
  shows "fin_nonneg (int_to_double k)" and "valof (int_to_double k) = real_of_int k"
proof -
  have both: "fin_nonneg (int_to_double k) \<and> valof (int_to_double k) = real_of_int k"
  proof (cases "k = 0")
    case True
    then show ?thesis
      by (simp add: int_to_double_0 d_zero_def fin_nonneg_zero valof_zero)
  next
    case False
    with assms have pos: "0 < k" by simp
    define e where "e = round_exponent k 1"
    define f where "f = floor_log2 k 1"
    have "2 powi f \<le> real_of_int k"
      unfolding f_def using floor_log2_bounds(1) [OF pos, of 1] by simp
    also have "real_of_int k < 2 ^ 53"
      using assms(2) by (metis of_int_less_iff of_int_numeral of_int_power)
    finally have "(2::real) powi f < 2 powi 53" by simp
    then have "f < 53" by (rule powi_two_less_imp)
    then have e0: "e \<le> 0" by (simp add: e_def f_def round_exponent_def)
    define m where "m = k * 2 ^ nat (- e)"
    have me: "real_of_int m * 2 powi e = real_of_int k"
    proof -
      have "real_of_int k * 2 powi 0 = real_of_int (k * 2 ^ nat (0 - e)) * 2 powi e"
        using e0 by (rule on_grid)
      then show ?thesis by (simp add: m_def)
    qed
    have "round_significand k 1 = m"
      using me by (intro round_significand_exact) (simp_all add: e_def)
    then have R: "rounded_value k 1 = real_of_int k"
      using me by (simp add: rounded_value_def e_def)
    have "real_of_int k < 2 ^ 53"
      using assms(2) by (metis of_int_less_iff of_int_numeral of_int_power)
    also have "\<dots> = (2::real) powi 53" by simp
    also have "\<dots> < (2::real) powi 1024"
      by (intro power_int_strict_increasing) simp_all
    finally have "rounded_value k 1 < 2 powi 1024" by (simp add: R)
    from round_double_value [OF pos _ this] pos show ?thesis
      by (simp add: int_to_double_def R)
  qed
  from both show "fin_nonneg (int_to_double k)" and "valof (int_to_double k) = real_of_int k"
    by simp_all
qed
section \<open>Rounding at a power of two\<close>

text \<open>A tie above an even integer is rounded down to it.\<close>

lemma round_half_even_tie_le:
  assumes den: "0 < den" and ev: "even b"
    and le: "real_of_int num / real_of_int den \<le> real_of_int b + 1 / 2"
  shows "round_half_even num den \<le> b"
proof -
  define q where "q = num div den"
  define r where "r = num mod den"
  have r: "0 \<le> r" "r < den" using den by (simp_all add: r_def)
  have dpos: "0 < real_of_int den" using den by simp
  have v: "real_of_int num / real_of_int den = real_of_int q + real_of_int r / real_of_int den"
    unfolding q_def r_def using den by (rule div_mod_real)
  have frac0: "0 \<le> real_of_int r / real_of_int den" using r dpos by simp
  have "real_of_int q \<le> real_of_int b + 1 / 2" using le v frac0 by linarith
  then have "real_of_int q < real_of_int (b + 1)" by simp
  then have "q < b + 1" by (simp only: of_int_less_iff)
  then have qb: "q \<le> b" by simp
  show ?thesis
  proof (cases "q = b")
    case True
    from le v have "real_of_int r / real_of_int den \<le> 1 / 2" by (simp add: True)
    then have "2 * real_of_int r \<le> real_of_int den" using dpos by (simp add: field_simps)
    then have "real_of_int (2 * r) \<le> real_of_int den" by simp
    then have "2 * r \<le> den" by (simp only: of_int_le_iff)
    then show ?thesis
      using ev True by (simp add: round_half_even_def Let_def q_def [symmetric] r_def [symmetric])
  next
    case False
    with qb have "q + 1 \<le> b" by simp
    with round_half_even_cases [of num den] qb show ?thesis
      by (auto simp: q_def)
  qed
qed

text \<open>A value that is not above the middle between \<open>2^k\<close> and the next double is rounded
  to at most \<open>2^k\<close>: the significand of \<open>2^k\<close> is even.\<close>

lemma round_double_le_power_of_two:
  assumes n: "0 < n" and d: "0 < d" and k: "- 1022 \<le> k" "k \<le> 1023"
    and le: "real_of_int n / real_of_int d \<le> 2 powi k * (1 + 2 powi (- 53))"
  shows "fin_nonneg (round_double False n d)"
    and "valof (round_double False n d) \<le> 2 powi k"
proof -
  define v where "v = real_of_int n / real_of_int d"
  define B where "B = Fin False (2 ^ 52) (k - 52)"
  have Bv: "valid_double B" using k by (simp add: B_def valid_double_def)
  have B: "fin_nonneg B" using k by (simp add: B_def fin_nonneg_def valid_double_def)
  have p52: "(2::real) powi 52 = 2 ^ 52" by (simp add: power_int_nonneg_exp)
  have "(2::real) powi (52 + (k - 52)) = 2 powi 52 * 2 powi (k - 52)"
    by (rule powi_two_add)
  then have split: "(2::real) powi k = 2 ^ 52 * 2 powi (k - 52)"
    by (simp add: p52)
  have valB: "valof B = 2 powi k"
    by (simp add: B_def valof_def split)
  have res: "fin_nonneg (round_double False n d) \<and> valof (round_double False n d) \<le> 2 powi k"
  proof (cases "v \<le> 2 powi k")
    case True
    have lo: "valof (Fin False 0 (- 1074)) \<le> real_of_int n / real_of_int d"
      using n d by (simp add: valof_zero)
    have hi: "real_of_int n / real_of_int d \<le> valof B"
      using True by (simp add: valB v_def)
    from round_sandwich [OF n d fin_nonneg_zero B lo hi] show ?thesis
      by (simp add: valB)
  next
    case False
    then have lo: "2 powi k \<le> v" by simp
    have upos: "0 < (2::real) powi (- 53)" by simp
    have "(2::real) powi (- 53) \<le> 2 powi (- 1)" by (rule powi_two_mono) simp
    then have uhalf: "(2::real) powi (- 53) \<le> 1 / 2" by simp
    have kpos: "0 < (2::real) powi k" by simp
    have "2 powi k * (1 + 2 powi (- 53)) < 2 powi k * (2::real)"
      using kpos uhalf by (intro mult_strict_left_mono) simp_all
    also have "\<dots> = 2 powi (k + 1)"
      by (simp only: powi_two_add power_int_1_right)
    finally have "2 powi k * (1 + 2 powi (- 53)) < (2::real) powi (k + 1)" .
    moreover have "v \<le> 2 powi k * (1 + 2 powi (- 53))"
      unfolding v_def by (rule le)
    ultimately have hi: "v < 2 powi (k + 1)" by (rule le_less_trans [rotated])
    from floor_log2_bounds [OF n d]
    have fl: "2 powi (floor_log2 n d) \<le> v" "v < 2 powi (floor_log2 n d + 1)"
      by (simp_all add: v_def)
    have fk: "floor_log2 n d = k"
      using fl lo hi by (rule binade_unique)
    have e: "round_exponent n d = k - 52"
      using k by (simp add: round_exponent_def fk)
    from round_significand_fraction [OF d, of n] obtain num den where f: "0 < den"
      "round_significand n d = round_half_even num den"
      "real_of_int num / real_of_int den * 2 powi (k - 52) = v"
      unfolding e v_def by blast
    define w where "w = real_of_int num / real_of_int den"
    define g :: real where "g = 2 powi (k - 52)"
    have gpos: "0 < g" by (simp add: g_def)
    have wg: "w * g = v" using f(3) by (simp add: w_def g_def)
    have kg: "(2::real) powi k = 2 ^ 52 * g" using split by (simp add: g_def)
    have half: "(2::real) ^ 52 * 2 powi (- 53) = 1 / 2"
      by (simp add: power_int_minus_divide)
    have "w * g \<le> 2 ^ 52 * g * (1 + 2 powi (- 53))"
      using le by (simp only: wg kg [symmetric] v_def)
    also have "\<dots> = (2 ^ 52 + 2 ^ 52 * 2 powi (- 53)) * g"
      by (simp only: distrib_left distrib_right mult_1_right mult.assoc mult.commute [of g])
    also have "\<dots> = (2 ^ 52 + 1 / 2) * g" by (simp only: half)
    finally have "w \<le> 2 ^ 52 + 1 / 2"
      using gpos by (simp only: mult_le_cancel_right_pos)
    then have "real_of_int num / real_of_int den \<le> real_of_int (2 ^ 52) + 1 / 2"
      by (simp add: w_def)
    with f(1) have "round_half_even num den \<le> 2 ^ 52"
      by (intro round_half_even_tie_le) simp_all
    then have m: "round_significand n d \<le> 2 ^ 52" by (simp only: f(2))
    then have "real_of_int (round_significand n d) \<le> 2 ^ 52"
      by (metis of_int_le_iff of_int_numeral of_int_power)
    then have "real_of_int (round_significand n d) * g \<le> 2 ^ 52 * g"
      using gpos by (intro mult_right_mono) simp_all
    then have rv: "rounded_value n d \<le> 2 powi k"
      by (simp only: rounded_value_def e g_def [symmetric] kg)
    have "(2::real) powi k < 2 powi 1024"
      using k by (intro power_int_strict_increasing) simp_all
    with rv have "rounded_value n d < 2 powi 1024" by linarith
    from round_double_value [OF n d this] rv show ?thesis by simp
  qed
  from res show "fin_nonneg (round_double False n d)"
    and "valof (round_double False n d) \<le> 2 powi k"
    by simp_all
qed

text \<open>The doubles from \<open>1 - 2^-53\<close> to \<open>1\<close> are these two.\<close>

lemma doubles_next_to_one:
  assumes x: "fin_nonneg x"
    and lo: "1 - 2 powi (- 53) \<le> valof x" and hi: "valof x \<le> 1"
  shows "x = Fin False (2 ^ 52) (- 52) \<or> x = Fin False (2 ^ 53 - 1) (- 53)"
proof -
  from x obtain m e where x': "x = Fin False m e" "valid_double (Fin False m e)" "0 \<le> m"
    "valof x = real_of_int m * 2 powi e"
    by (rule fin_nonneg_cases)
  define g :: real where "g = 2 powi e"
  have gpos: "0 < g" by (simp add: g_def)
  have "(2::real) powi (- 53) \<le> 2 powi (- 1)" by (rule powi_two_mono) simp
  then have uhalf: "(2::real) powi (- 53) \<le> 1 / 2" by simp
  have mr: "real_of_int m < 2 ^ 53"
  proof -
    from x'(2) have "m < 2 ^ 53" by (auto simp: valid_double_def)
    then show ?thesis by (metis of_int_less_iff of_int_numeral of_int_power)
  qed
  have normal: "2 ^ 52 \<le> m"
  proof (rule ccontr)
    assume "\<not> 2 ^ 52 \<le> m"
    with x'(2) have e: "e = - 1074" by (auto simp: valid_double_def)
    have "real_of_int m * g \<le> 2 ^ 53 * g"
      using mr gpos by (intro mult_right_mono) simp_all
    also have "\<dots> = 2 powi 53 * 2 powi (- 1074)"
      by (simp add: g_def e power_int_nonneg_exp)
    also have "\<dots> = 2 powi (53 + (- 1074))" by (simp only: powi_two_add)
    also have "\<dots> \<le> 2 powi (- 2)" by (rule powi_two_mono) simp
    also have "\<dots> < 1 / 2" by (simp add: power_int_minus_divide)
    finally show False using lo uhalf by (simp add: x'(4) g_def)
  qed
  then have mr52: "2 ^ 52 \<le> real_of_int m"
    by (metis of_int_le_iff of_int_numeral of_int_power)
  have vg: "valof x = real_of_int m * g" by (simp only: x'(4) g_def)
  have p52: "(2::real) powi (52 + e) = 2 ^ 52 * g"
    unfolding g_def by (simp only: powi_two_add) (simp add: power_int_nonneg_exp)
  have p53: "(2::real) powi (53 + e) = 2 ^ 53 * g"
    unfolding g_def by (simp only: powi_two_add) (simp add: power_int_nonneg_exp)
  have "2 ^ 52 * g \<le> real_of_int m * g"
    using mr52 gpos by (intro mult_right_mono) simp_all
  with hi have "2 ^ 52 * g \<le> 1" unfolding vg by linarith
  then have "2 powi (52 + e) \<le> (1::real)" by (simp only: p52)
  then have "(2::real) powi (52 + e) < 2 powi 1" by simp
  then have "52 + e < 1" by (rule powi_two_less_imp)
  then have e_le: "e \<le> - 52" by simp
  have "real_of_int m * g < 2 ^ 53 * g"
    using mr gpos by (intro mult_strict_right_mono) simp_all
  with lo uhalf have "1 / 2 < 2 ^ 53 * g" unfolding vg by linarith
  then have "1 / 2 < (2::real) powi (53 + e)" by (simp only: p53)
  moreover have "(2::real) powi (- 1) = 1 / 2" by (simp add: power_int_minus_divide)
  ultimately have "(2::real) powi (- 1) < 2 powi (53 + e)" by (simp only:)
  then have "- 1 < 53 + e" by (rule powi_two_less_imp)
  then have e_ge: "- 53 \<le> e" by simp
  from e_le e_ge have "e = - 52 \<or> e = - 53" by linarith
  then show ?thesis
  proof
    assume e: "e = - 52"
    have "real_of_int m * 2 powi (- 52) \<le> 1" using hi by (simp add: x'(4) e)
    then have "real_of_int m \<le> 2 ^ 52" by (simp add: power_int_minus_divide field_simps)
    then have "m \<le> 2 ^ 52"
      by (metis of_int_le_iff of_int_numeral of_int_power)
    with normal have "m = 2 ^ 52" by simp
    then show ?thesis by (simp add: x'(1) e)
  next
    assume e: "e = - 53"
    have "1 - 2 powi (- 53) \<le> real_of_int m * 2 powi (- 53)"
      using lo by (simp add: x'(4) e)
    then have "2 ^ 53 - 1 \<le> real_of_int m" by (simp add: power_int_minus_divide field_simps)
    then have "real_of_int (2 ^ 53 - 1) \<le> real_of_int m" by simp
    then have "2 ^ 53 - 1 \<le> m" by (simp only: of_int_le_iff)
    moreover from x'(2) have "m < 2 ^ 53" by (auto simp: valid_double_def)
    ultimately have "m = 2 ^ 53 - 1" by simp
    then show ?thesis by (simp add: x'(1) e)
  qed
qed


section \<open>The intervals of the threads\<close>

lemma fin_nonneg_one: "fin_nonneg d_one" and valof_one: "valof d_one = 1"
  by (simp_all add: d_one_def fin_nonneg_def valid_double_def valof_def)

lemma two_powi_m53_small: "(2::real) powi (- 53) \<le> 1 / 2"
proof -
  have "(2::real) powi (- 53) \<le> 2 powi (- 1)" by (intro powi_two_mono) simp
  then show ?thesis by simp
qed

text \<open>\<open>range_per_thread\<close> is \<open>1 / num_threads\<close> up to one rounding.\<close>

lemma range_per_thread_bounds:
  assumes "1 \<le> sint num_threads"
  shows "fin_nonneg (range_per_thread num_threads)"
    and "\<bar>valof (range_per_thread num_threads) - 1 / real_of_int (sint num_threads)\<bar>
       \<le> 1 / real_of_int (sint num_threads) * 2 powi (- 53)"
proof -
  define n where "n = sint num_threads"
  have n: "1 \<le> n" "n < 2 ^ 31"
    using assms sint_lt [of num_threads] by (simp_all add: n_def)
  then have n53: "0 \<le> n" "n < 2 ^ 53" by simp_all
  note y = int_to_double_exact [OF n53]
  have ypos: "0 < valof (int_to_double n)" using n y(2) by simp
  have nr: "real_of_int n < 2 ^ 31" "1 \<le> real_of_int n"
    using n by (metis of_int_less_iff of_int_numeral of_int_power, simp)
  have "(2::real) powi (- 1022) \<le> 2 powi (- 31)" by (intro powi_two_mono) simp
  also have "\<dots> = 1 / 2 ^ 31" by (simp add: power_int_minus_divide)
  also have "\<dots> \<le> 1 / real_of_int n"
    using nr by (intro divide_left_mono) simp_all
  finally have normal: "2 powi (- 1022) \<le> valof d_one / valof (int_to_double n)"
    by (simp add: valof_one y(2))
  have "1 / real_of_int n \<le> 1" using nr by simp
  also have "\<dots> \<le> (2::real) powi 1000" by simp
  finally have small: "valof d_one / valof (int_to_double n) \<le> 2 powi 1000"
    by (simp add: valof_one y(2))
  from d_div_relative_error [OF fin_nonneg_one y(1) ypos normal small]
  show "fin_nonneg (range_per_thread num_threads)"
    and "\<bar>valof (range_per_thread num_threads) - 1 / real_of_int (sint num_threads)\<bar>
       \<le> 1 / real_of_int (sint num_threads) * 2 powi (- 53)"
    by (simp_all add: range_per_thread_def sint_to_double_def n_def [symmetric] valof_one y(2))
qed

lemma d_mul_zero_left:
  assumes "fin_nonneg y"
  shows "d_mul d_zero y = d_zero"
  using assms
  by (elim fin_nonneg_cases) (simp add: d_zero_def round_double_def scale_num_def)

text \<open>\<open>j * range_per_thread\<close>, for \<open>1 \<le> j \<le> num_threads\<close>, is \<open>j\<close> times the value of
  \<open>range_per_thread\<close> up to one rounding.\<close>

lemma interval_point_bounds:
  assumes nt: "1 \<le> sint num_threads" and j: "1 \<le> j" "j \<le> sint num_threads"
  shows "fin_nonneg (d_mul (int_to_double j) (range_per_thread num_threads))"
    and "\<bar>valof (d_mul (int_to_double j) (range_per_thread num_threads))
          - real_of_int j * valof (range_per_thread num_threads)\<bar>
       \<le> real_of_int j * valof (range_per_thread num_threads) * 2 powi (- 53)"
proof -
  define n where "n = sint num_threads"
  define r where "r = valof (range_per_thread num_threads)"
  define u :: real where "u = 2 powi (- 53)"
  have n: "1 \<le> n" "n < 2 ^ 31"
    using nt sint_lt [of num_threads] by (simp_all add: n_def)
  have nr: "real_of_int n < 2 ^ 31" "1 \<le> real_of_int n"
    using n by (metis of_int_less_iff of_int_numeral of_int_power, simp)
  have "j \<le> n" using j(2) by (simp add: n_def)
  then have jn: "real_of_int j \<le> real_of_int n" "1 \<le> real_of_int j"
    using j(1) by simp_all
  from j n have j53: "0 \<le> j" "j < 2 ^ 53" by (simp_all add: n_def)
  note x = int_to_double_exact [OF j53]
  note rb = range_per_thread_bounds [OF nt]
  have u: "0 < u" "u \<le> 1 / 2"
    unfolding u_def using two_powi_m53_small by simp_all
  have inv_pos: "0 < 1 / real_of_int n" using nr by simp
  define q where "q = 1 / real_of_int n"
  define t where "t = q * u"
  have qpos: "0 < q" using inv_pos by (simp add: q_def)
  have r_err: "\<bar>r - q\<bar> \<le> t"
    using rb(2) by (simp add: r_def n_def u_def q_def t_def)
  have "q * u \<le> q * (1 / 2)"
    using u(2) qpos by (intro mult_left_mono) simp_all
  then have "t \<le> q / 2" by (simp add: t_def)
  with r_err qpos have "q / 2 \<le> r" and "r \<le> q * 2"
    by linarith+
  then have r_lo: "1 / real_of_int n * (1 / 2) \<le> r" and r_hi: "r \<le> 1 / real_of_int n * 2"
    by (simp_all add: q_def)
  have rpos: "0 < r" using \<open>q / 2 \<le> r\<close> qpos by linarith
  have "(2::real) powi (- 1022) \<le> 2 powi (- 32)" by (intro powi_two_mono) simp
  also have "\<dots> = 1 / 2 ^ 31 * (1 / 2)" by (simp add: power_int_minus_divide)
  also have "\<dots> \<le> 1 / real_of_int n * (1 / 2)"
    using nr by (intro mult_right_mono divide_left_mono) simp_all
  also have "\<dots> \<le> r" by (rule r_lo)
  also have "\<dots> = 1 * r" by simp
  also have "\<dots> \<le> real_of_int j * r"
    using jn(2) rpos by (intro mult_right_mono) simp_all
  finally have normal: "2 powi (- 1022) \<le>
      valof (int_to_double j) * valof (range_per_thread num_threads)"
    by (simp add: x(2) r_def)
  have "real_of_int j * r \<le> real_of_int n * r"
    using jn(1) rpos by (intro mult_right_mono) simp_all
  also have "\<dots> \<le> real_of_int n * (1 / real_of_int n * 2)"
    using r_hi nr by (intro mult_left_mono) simp_all
  also have "\<dots> = 2" using nr by simp
  also have "\<dots> \<le> (2::real) powi 1000" by simp
  finally have small: "valof (int_to_double j) * valof (range_per_thread num_threads)
      \<le> 2 powi 1000"
    by (simp add: x(2) r_def)
  from d_mul_relative_error [OF x(1) rb(1) normal small]
  show "fin_nonneg (d_mul (int_to_double j) (range_per_thread num_threads))"
    and "\<bar>valof (d_mul (int_to_double j) (range_per_thread num_threads))
          - real_of_int j * valof (range_per_thread num_threads)\<bar>
       \<le> real_of_int j * valof (range_per_thread num_threads) * 2 powi (- 53)"
    by (simp_all add: x(2))
qed

lemma interval_start_zero:
  assumes "1 \<le> sint num_threads"
  shows "interval_start num_threads 0 = d_zero"
  using range_per_thread_bounds(1) [OF assms]
  by (simp add: interval_start_def sint_to_double_def int_to_double_0 d_mul_zero_left)

lemma interval_end_is_next_start:
  "interval_end num_threads i = interval_start num_threads (i + 1)"
  by (simp add: interval_end_def interval_start_def)

text \<open>Every interval has a positive length.\<close>

lemma interval_point_increasing:
  assumes nt: "1 \<le> sint num_threads" and k0: "0 \<le> k" and k1n: "k + 1 \<le> sint num_threads"
  shows "fin_nonneg (d_mul (int_to_double k) (range_per_thread num_threads))"
    and "fin_nonneg (d_mul (int_to_double (k + 1)) (range_per_thread num_threads))"
    and "valof (d_mul (int_to_double k) (range_per_thread num_threads))
       < valof (d_mul (int_to_double (k + 1)) (range_per_thread num_threads))"
proof -
  define lo where "lo = d_mul (int_to_double k) (range_per_thread num_threads)"
  define hi where "hi = d_mul (int_to_double (k + 1)) (range_per_thread num_threads)"
  define r where "r = valof (range_per_thread num_threads)"
  define u :: real where "u = 2 powi (- 53)"
  define n where "n = sint num_threads"
  have k: "0 \<le> k" "k + 1 \<le> n"
    using k0 k1n by (simp_all add: n_def)
  have n: "n < 2 ^ 31" "1 \<le> n" using sint_lt [of num_threads] nt by (simp_all add: n_def)
  note rb = range_per_thread_bounds [OF nt]
  have nr: "real_of_int n < 2 ^ 31" "1 \<le> real_of_int n"
    using n by (metis of_int_less_iff of_int_numeral of_int_power, simp)
  have u: "0 < u" "u \<le> 1 / 2"
    unfolding u_def using two_powi_m53_small by simp_all
  have inv_pos: "0 < 1 / real_of_int n" using nr by simp
  define q where "q = 1 / real_of_int n"
  define t where "t = q * u"
  have qpos: "0 < q" using inv_pos by (simp add: q_def)
  have "\<bar>r - q\<bar> \<le> t"
    using rb(2) by (simp add: r_def n_def u_def q_def t_def)
  moreover have "q * u \<le> q * (1 / 2)"
    using u(2) qpos by (intro mult_left_mono) simp_all
  then have "t \<le> q / 2" by (simp add: t_def)
  ultimately have rpos: "0 < r" using qpos by linarith
  have e: "hi = d_mul (int_to_double (k + 1)) (range_per_thread num_threads)"
    by (simp add: hi_def)
  have s: "lo = d_mul (int_to_double k) (range_per_thread num_threads)"
    by (simp add: lo_def)
  have k1: "1 \<le> k + 1" "k + 1 \<le> sint num_threads"
    using k by (simp_all add: n_def)
  note eb = interval_point_bounds [OF nt k1]
  have fe: "fin_nonneg hi"
    using eb(1) by (simp add: e)
  define A where "A = real_of_int (k + 1) * r"
  define a where "a = real_of_int k * r"
  define w where "w = r * u"
  have wpos: "0 < w" unfolding w_def using rpos u(1) by simp
  have A: "A = a + r" "A * u = real_of_int k * w + w"
    by (simp_all add: A_def a_def w_def algebra_simps)
  have "\<bar>valof (hi) - A\<bar> \<le> A * u"
    using eb(2) by (simp only: e r_def u_def A_def)
  then have e_lo: "a + r - (real_of_int k * w + w) \<le> valof (hi)"
    using A by linarith
  have both: "fin_nonneg (lo) \<and>
      valof (lo) < valof (hi)"
  proof (cases "k = 0")
    case True
    then have z: "lo = d_zero"
      using rb(1) by (simp add: s int_to_double_0 d_mul_zero_left)
    have "r * u \<le> r * (1 / 2)"
      using u(2) rpos by (intro mult_left_mono) simp_all
    then have "w \<le> r / 2" by (simp add: w_def)
    moreover have "r - w \<le> valof (hi)"
      using e_lo True by (simp add: a_def)
    ultimately have "0 < valof (hi)"
      using rpos by linarith
    then show ?thesis
      by (simp add: z d_zero_def fin_nonneg_zero valof_zero)
  next
    case False
    with k have kk: "1 \<le> k" "k \<le> sint num_threads" by (simp_all add: n_def)
    note sb = interval_point_bounds [OF nt kk]
    have "\<bar>valof (lo) - a\<bar> \<le> a * u"
      using sb(2) by (simp only: s r_def u_def a_def)
    moreover have "a * u = real_of_int k * w"
      by (simp add: a_def w_def algebra_simps)
    ultimately have s_hi: "valof (lo) \<le> a + real_of_int k * w"
      by linarith
    have "real_of_int k \<le> real_of_int n" using k(2) by simp
    with nr have kr: "2 * real_of_int k + 1 < 2 ^ 32" by simp
    have "(2 * real_of_int k + 1) * u < 2 ^ 32 * u"
      using kr u(1) by (intro mult_strict_right_mono)
    also have "\<dots> = 2 powi 32 * 2 powi (- 53)" by (simp only: u_def power_int_numeral)
    also have "\<dots> = 2 powi (32 + - 53)" by (simp only: powi_two_add)
    also have "\<dots> \<le> (2::real) powi 0" by (intro powi_two_mono) simp
    finally have "(2 * real_of_int k + 1) * u < 1" by simp
    then have "r * ((2 * real_of_int k + 1) * u) < r * 1"
      using rpos by (intro mult_strict_left_mono)
    then have "2 * (real_of_int k * w) + w < r"
      by (simp add: w_def algebra_simps)
    with s_hi e_lo have "valof (lo)
        < valof (hi)"
      by linarith
    with sb(1) show ?thesis by (simp add: s)
  qed
  from both fe show "fin_nonneg (d_mul (int_to_double k) (range_per_thread num_threads))"
    and "fin_nonneg (d_mul (int_to_double (k + 1)) (range_per_thread num_threads))"
    and "valof (d_mul (int_to_double k) (range_per_thread num_threads))
       < valof (d_mul (int_to_double (k + 1)) (range_per_thread num_threads))"
    by (simp_all add: lo_def hi_def)
qed

lemma interval_increasing:
  assumes nt: "1 \<le> sint num_threads" and i: "0 \<le> sint i" "i <s num_threads"
  shows "fin_nonneg (interval_start num_threads i)"
    and "fin_nonneg (interval_end num_threads i)"
    and "valof (interval_start num_threads i) < valof (interval_end num_threads i)"
proof -
  have succ: "sint (i + 1) = sint i + 1"
    using i(2) by (rule sint_succ)
  have "sint i + 1 \<le> sint num_threads"
    using i(2) by (simp add: word_sless_alt)
  from interval_point_increasing [OF nt i(1) this]
  show "fin_nonneg (interval_start num_threads i)"
    and "fin_nonneg (interval_end num_threads i)"
    and "valof (interval_start num_threads i) < valof (interval_end num_threads i)"
    by (simp_all add: interval_start_def interval_end_def sint_to_double_def succ)
qed

text \<open>The last interval ends within one unit in the last place of \<open>1.0\<close>.\<close>

lemma last_interval_end_bounds:
  assumes nt: "1 \<le> sint num_threads"
  shows "fin_nonneg (d_mul (sint_to_double num_threads) (range_per_thread num_threads))"
    and "1 - 2 powi (- 53)
       \<le> valof (d_mul (sint_to_double num_threads) (range_per_thread num_threads))"
    and "valof (d_mul (sint_to_double num_threads) (range_per_thread num_threads)) \<le> 1"
proof -
  define n where "n = sint num_threads"
  define r where "r = valof (range_per_thread num_threads)"
  define u :: real where "u = 2 powi (- 53)"
  have n: "1 \<le> n" "n < 2 ^ 31"
    using nt sint_lt [of num_threads] by (simp_all add: n_def)
  then have n53: "0 \<le> n" "n < 2 ^ 53" by simp_all
  note x = int_to_double_exact [OF n53]
  note rb = range_per_thread_bounds [OF nt]
  have nr: "0 < real_of_int n" using n by simp
  have "\<bar>r - 1 / real_of_int n\<bar> \<le> 1 / real_of_int n * u"
    using rb(2) by (simp add: r_def n_def u_def)
  then have "\<bar>r - 1 / real_of_int n\<bar> * real_of_int n \<le> 1 / real_of_int n * u * real_of_int n"
    using nr by (intro mult_right_mono) simp_all
  moreover have "\<bar>r - 1 / real_of_int n\<bar> * real_of_int n = \<bar>real_of_int n * r - 1\<bar>"
  proof -
    have "\<bar>r - 1 / real_of_int n\<bar> * real_of_int n = \<bar>(r - 1 / real_of_int n) * real_of_int n\<bar>"
      using nr by (simp add: abs_mult)
    also have "(r - 1 / real_of_int n) * real_of_int n = real_of_int n * r - 1"
      using nr by (simp add: field_simps)
    finally show ?thesis .
  qed
  moreover have "1 / real_of_int n * u * real_of_int n = u" using nr by simp
  ultimately have P: "\<bar>real_of_int n * r - 1\<bar> \<le> u" by simp
  define a where "a = Fin False (2 ^ 53 - 1) (- 53)"
  define b where "b = Fin False (2 ^ 52 + 1) (- 52)"
  have a: "fin_nonneg a" "valof a = 1 - u"
    by (simp_all add: a_def fin_nonneg_def valid_double_def valof_def u_def
        power_int_minus_divide)
  have b: "fin_nonneg b" "valof b = 1 + 2 * u"
    by (simp_all add: b_def fin_nonneg_def valid_double_def valof_def u_def
        power_int_minus_divide)
  have upos: "0 < u" by (simp add: u_def)
  have lo: "valof a \<le> valof (int_to_double n) * valof (range_per_thread num_threads)"
    using P by (simp add: a(2) x(2) r_def [symmetric])
  have hi: "valof (int_to_double n) * valof (range_per_thread num_threads) \<le> valof b"
    using P upos by (simp add: b(2) x(2) r_def [symmetric])
  note s = d_mul_sandwich [OF x(1) rb(1) a(1) b(1) lo hi]
  show "fin_nonneg (d_mul (sint_to_double num_threads) (range_per_thread num_threads))"
    using s(1) by (simp add: sint_to_double_def n_def)
  show "1 - 2 powi (- 53)
       \<le> valof (d_mul (sint_to_double num_threads) (range_per_thread num_threads))"
    using s(2) by (simp add: sint_to_double_def n_def a(2) u_def)
  have "0 < 1 - u" using two_powi_m53_small by (simp add: u_def)
  with lo have pos: "0 < valof (int_to_double n) * valof (range_per_thread num_threads)"
    unfolding a(2) by linarith
  from d_mul_round [OF x(1) rb(1) pos] obtain N D where N: "0 < N" and D: "0 < D"
    and eq: "d_mul (int_to_double n) (range_per_thread num_threads) = round_double False N D"
    and frac: "real_of_int N / real_of_int D =
      valof (int_to_double n) * valof (range_per_thread num_threads)"
    by blast
  have "real_of_int N / real_of_int D \<le> 1 + u"
    using P by (simp add: frac x(2) r_def [symmetric])
  then have le: "real_of_int N / real_of_int D \<le> 2 powi 0 * (1 + 2 powi (- 53))"
    by (simp add: u_def)
  have k: "- 1022 \<le> (0::int)" "(0::int) \<le> 1023" by simp_all
  from round_double_le_power_of_two(2) [OF N D k le]
  have "valof (d_mul (int_to_double n) (range_per_thread num_threads)) \<le> 1"
    by (simp add: eq)
  then show "valof (d_mul (sint_to_double num_threads) (range_per_thread num_threads)) \<le> 1"
    by (simp only: sint_to_double_def n_def)
qed

text \<open>It is \<open>1.0\<close> or the double just below.\<close>

lemma last_interval_end_values:
  assumes nt: "1 \<le> sint num_threads"
  shows "d_mul (sint_to_double num_threads) (range_per_thread num_threads) = d_one \<or>
     d_mul (sint_to_double num_threads) (range_per_thread num_threads) =
       Fin False (2 ^ 53 - 1) (- 53)"
  using doubles_next_to_one [OF last_interval_end_bounds [OF nt]]
  by (simp add: d_one_def)

section \<open>The invariant is kept by every step\<close>

lemma partial_result_alt:
  "partial_result num_steps num_threads k =
     calculate_partial_integral
       (d_mul (int_to_double (int k)) (range_per_thread num_threads))
       (d_mul (int_to_double (int k + 1)) (range_per_thread num_threads))
       (steps_per_thread num_steps num_threads)"
  by (simp add: partial_result_def range_per_thread_def steps_per_thread_def
      sint_to_double_def)

lemma invariant_initial:
  assumes "\<not> invalid_input num_steps num_threads"
  shows "invariant num_steps num_threads initial_state"
proof -
  from assms have "0 < sint num_threads" by (simp add: valid_input_iff)
  then show ?thesis
    by (simp add: invariant_def initial_state_def finished_set_def)
qed


lemma invariantD:
  assumes "invariant num_steps num_threads \<sigma>"
  shows "0 \<le> sint (loop_i \<sigma>)"
    and "sint (loop_i \<sigma>) \<le> sint num_threads"
    and "length (threads \<sigma>) = nat (sint (loop_i \<sigma>))"
    and "\<And>k. k < length (threads \<sigma>) \<Longrightarrow> worker_ok num_steps num_threads k (threads \<sigma> ! k)"
    and "\<And>k p t. k < length (threads \<sigma>) \<Longrightarrow> w_phase (threads \<sigma> ! k) = Loaded p t \<Longrightarrow>
           t = total_result \<sigma>"
    and "result_mutex \<sigma> \<longleftrightarrow>
           (\<exists>k < length (threads \<sigma>). in_critical_section (w_phase (threads \<sigma> ! k)))"
    and "\<And>j k. j < length (threads \<sigma>) \<Longrightarrow> k < length (threads \<sigma>) \<Longrightarrow>
           in_critical_section (w_phase (threads \<sigma> ! j)) \<Longrightarrow>
           in_critical_section (w_phase (threads \<sigma> ! k)) \<Longrightarrow> j = k"
    and "\<exists>order. distinct order \<and> set order = finished_set \<sigma> \<and>
           total_result \<sigma> =
             foldl d_add d_zero (map (partial_result num_steps num_threads) order)"
  using assms unfolding invariant_def by blast+

lemma invariantI:
  assumes "0 \<le> sint (loop_i \<sigma>)"
    and "sint (loop_i \<sigma>) \<le> sint num_threads"
    and "length (threads \<sigma>) = nat (sint (loop_i \<sigma>))"
    and "\<And>k. k < length (threads \<sigma>) \<Longrightarrow> worker_ok num_steps num_threads k (threads \<sigma> ! k)"
    and "\<And>k p t. k < length (threads \<sigma>) \<Longrightarrow> w_phase (threads \<sigma> ! k) = Loaded p t \<Longrightarrow>
           t = total_result \<sigma>"
    and "result_mutex \<sigma> \<longleftrightarrow>
           (\<exists>k < length (threads \<sigma>). in_critical_section (w_phase (threads \<sigma> ! k)))"
    and "\<And>j k. j < length (threads \<sigma>) \<Longrightarrow> k < length (threads \<sigma>) \<Longrightarrow>
           in_critical_section (w_phase (threads \<sigma> ! j)) \<Longrightarrow>
           in_critical_section (w_phase (threads \<sigma> ! k)) \<Longrightarrow> j = k"
    and "\<exists>order. distinct order \<and> set order = finished_set \<sigma> \<and>
           total_result \<sigma> =
             foldl d_add d_zero (map (partial_result num_steps num_threads) order)"
  shows "invariant num_steps num_threads \<sigma>"
  unfolding invariant_def using assms by blast

lemma nth_set_phase:
  "j < length ts \<Longrightarrow>
   ts[k := (ts ! k)\<lparr>w_phase := ph\<rparr>] ! j = (if j = k then (ts ! k)\<lparr>w_phase := ph\<rparr> else ts ! j)"
  by (simp add: nth_list_update)

lemma worker_ok_phase:
  assumes "worker_ok num_steps num_threads k w"
    and "holds_partial ph (partial_result num_steps num_threads k)"
  shows "worker_ok num_steps num_threads k (w\<lparr>w_phase := ph\<rparr>)"
  using assms by (simp add: worker_ok_def)

lemma finished_set_update:
  assumes "k < length (threads \<sigma>)" and "w_phase (threads \<sigma> ! k) \<noteq> Finished"
  shows "finished_set (\<sigma>\<lparr>threads := (threads \<sigma>)[k := (threads \<sigma> ! k)\<lparr>w_phase := ph\<rparr>]\<rparr>) =
     (if ph = Finished then insert k (finished_set \<sigma>) else finished_set \<sigma>)"
proof -
  have "\<And>j. j < length (threads \<sigma>) \<Longrightarrow>
      w_phase ((threads \<sigma>)[k := (threads \<sigma> ! k)\<lparr>w_phase := ph\<rparr>] ! j) = Finished \<longleftrightarrow>
      (if j = k then ph = Finished else w_phase (threads \<sigma> ! j) = Finished)"
    by (simp add: nth_set_phase)
  then show ?thesis
    using assms unfolding finished_set_def by (auto split: if_splits)
qed


lemma invariant_launch:
  assumes inv: "invariant num_steps num_threads \<sigma>"
    and lt: "loop_i \<sigma> <s num_threads"
  shows "invariant num_steps num_threads
       (\<sigma>\<lparr>threads := threads \<sigma> @
            [\<lparr>w_start = interval_start num_threads (loop_i \<sigma>),
              w_end = interval_end num_threads (loop_i \<sigma>),
              w_steps = steps_per_thread num_steps num_threads,
              w_phase = Launched\<rparr>],
          loop_i := loop_i \<sigma> + 1\<rparr>)"
proof -
  define w where "w = \<lparr>w_start = interval_start num_threads (loop_i \<sigma>),
              w_end = interval_end num_threads (loop_i \<sigma>),
              w_steps = steps_per_thread num_steps num_threads,
              w_phase = Launched\<rparr>"
  define \<tau> where "\<tau> = \<sigma>\<lparr>threads := threads \<sigma> @ [w], loop_i := loop_i \<sigma> + 1\<rparr>"
  note D = invariantD [OF inv]
  have succ: "sint (loop_i \<sigma> + 1) = sint (loop_i \<sigma>) + 1"
    using lt by (rule sint_succ)
  have lt': "sint (loop_i \<sigma>) < sint num_threads"
    using lt by (simp add: word_sless_alt)
  have idx: "int (length (threads \<sigma>)) = sint (loop_i \<sigma>)"
    using D(1) D(3) by simp
  have new_ok: "worker_ok num_steps num_threads (length (threads \<sigma>)) w"
    by (simp add: w_def worker_ok_def interval_start_def interval_end_def sint_to_double_def
        succ idx holds_partial_def)
  have len: "length (threads \<tau>) = Suc (length (threads \<sigma>))"
    by (simp add: \<tau>_def)
  have nth: "\<And>j. j < length (threads \<sigma>) \<Longrightarrow> threads \<tau> ! j = threads \<sigma> ! j"
    by (simp add: \<tau>_def nth_append)
  have nth_last: "threads \<tau> ! length (threads \<sigma>) = w"
    by (simp add: \<tau>_def)
  have ph_last: "w_phase w = Launched"
    by (simp add: w_def)
  have tot: "total_result \<tau> = total_result \<sigma>" and mut: "result_mutex \<tau> = result_mutex \<sigma>"
    by (simp_all add: \<tau>_def)
  have fin: "finished_set \<tau> = finished_set \<sigma>"
  proof (rule set_eqI)
    fix j
    show "j \<in> finished_set \<tau> \<longleftrightarrow> j \<in> finished_set \<sigma>"
    proof (cases "j < length (threads \<sigma>)")
      case True
      then show ?thesis by (simp add: finished_set_def len nth)
    next
      case False
      then show ?thesis
        by (cases "j = length (threads \<sigma>)") (simp_all add: finished_set_def len nth_last ph_last)
    qed
  qed
  have cs: "in_critical_section (w_phase (threads \<tau> ! j)) \<longleftrightarrow>
      j < length (threads \<sigma>) \<and> in_critical_section (w_phase (threads \<sigma> ! j))"
    if "j < length (threads \<tau>)" for j
  proof (cases "j < length (threads \<sigma>)")
    case True
    then show ?thesis by (simp add: nth)
  next
    case False
    with that have "j = length (threads \<sigma>)" by (simp add: len)
    then show ?thesis by (simp add: nth_last ph_last in_critical_section_def)
  qed
  have "invariant num_steps num_threads \<tau>"
  proof (rule invariantI)
    show "0 \<le> sint (loop_i \<tau>)" "sint (loop_i \<tau>) \<le> sint num_threads"
      using D(1) lt' by (simp_all add: \<tau>_def succ)
    show "length (threads \<tau>) = nat (sint (loop_i \<tau>))"
      using D(1) D(3) by (simp add: \<tau>_def succ nat_add_distrib)
    show "worker_ok num_steps num_threads j (threads \<tau> ! j)" if "j < length (threads \<tau>)" for j
    proof (cases "j < length (threads \<sigma>)")
      case True
      then show ?thesis using D(4) [of j] by (simp add: nth)
    next
      case False
      with that have "j = length (threads \<sigma>)" by (simp add: len)
      then show ?thesis using new_ok by (simp add: nth_last)
    qed
    show "t = total_result \<tau>"
      if "j < length (threads \<tau>)" "w_phase (threads \<tau> ! j) = Loaded p t" for j p t
    proof (cases "j < length (threads \<sigma>)")
      case True
      then show ?thesis using that D(5) [of j p t] by (simp add: nth tot)
    next
      case False
      with that have "j = length (threads \<sigma>)" by (simp add: len)
      then show ?thesis using that by (simp add: nth_last ph_last)
    qed
    show "result_mutex \<tau> \<longleftrightarrow>
        (\<exists>j < length (threads \<tau>). in_critical_section (w_phase (threads \<tau> ! j)))"
    proof -
      have "(\<exists>j < length (threads \<tau>). in_critical_section (w_phase (threads \<tau> ! j))) \<longleftrightarrow>
          (\<exists>j < length (threads \<sigma>). in_critical_section (w_phase (threads \<sigma> ! j)))"
        using cs len by (metis less_Suc_eq)
      then show ?thesis using D(6) mut by simp
    qed
    show "i = j" if "i < length (threads \<tau>)" "j < length (threads \<tau>)"
      "in_critical_section (w_phase (threads \<tau> ! i))"
      "in_critical_section (w_phase (threads \<tau> ! j))" for i j
      using that D(7) [of i j] cs by simp
    show "\<exists>order. distinct order \<and> set order = finished_set \<tau> \<and>
        total_result \<tau> = foldl d_add d_zero (map (partial_result num_steps num_threads) order)"
      using D(8) by (simp add: fin tot)
  qed
  then show ?thesis by (simp add: \<tau>_def w_def)
qed

lemma invariant_integrate:
  assumes inv: "invariant num_steps num_threads \<sigma>"
    and k: "k < length (threads \<sigma>)"
    and ph: "w_phase (threads \<sigma> ! k) = Launched"
  shows "invariant num_steps num_threads
       (\<sigma>\<lparr>threads := (threads \<sigma>)[k := (threads \<sigma> ! k)
            \<lparr>w_phase := Waiting (calculate_partial_integral
               (w_start (threads \<sigma> ! k)) (w_end (threads \<sigma> ! k))
               (w_steps (threads \<sigma> ! k)))\<rparr>]\<rparr>)"
proof -
  define q where "q = calculate_partial_integral
               (w_start (threads \<sigma> ! k)) (w_end (threads \<sigma> ! k))
               (w_steps (threads \<sigma> ! k))"
  define \<tau> where "\<tau> = \<sigma>\<lparr>threads := (threads \<sigma>)[k := (threads \<sigma> ! k)\<lparr>w_phase := Waiting q\<rparr>]\<rparr>"
  note D = invariantD [OF inv]
  have ok: "worker_ok num_steps num_threads k (threads \<sigma> ! k)"
    using D(4) k by simp
  then have q: "q = partial_result num_steps num_threads k"
    by (simp add: q_def worker_ok_def partial_result_alt)
  have ok': "worker_ok num_steps num_threads k ((threads \<sigma> ! k)\<lparr>w_phase := Waiting q\<rparr>)"
    using ok q by (intro worker_ok_phase) (simp_all add: holds_partial_def)
  have len: "length (threads \<tau>) = length (threads \<sigma>)"
    by (simp add: \<tau>_def)
  have nth: "\<And>j. j < length (threads \<sigma>) \<Longrightarrow> threads \<tau> ! j =
      (if j = k then (threads \<sigma> ! k)\<lparr>w_phase := Waiting q\<rparr> else threads \<sigma> ! j)"
    by (simp add: \<tau>_def nth_set_phase)
  have fin: "finished_set \<tau> = finished_set \<sigma>"
    unfolding \<tau>_def using k ph by (simp add: finished_set_update)
  have cs: "\<And>j. j < length (threads \<sigma>) \<Longrightarrow>
      in_critical_section (w_phase (threads \<tau> ! j)) \<longleftrightarrow>
      in_critical_section (w_phase (threads \<sigma> ! j))"
    using ph by (simp add: nth in_critical_section_def)
  have "invariant num_steps num_threads \<tau>"
  proof (rule invariantI)
    show "0 \<le> sint (loop_i \<tau>)" "sint (loop_i \<tau>) \<le> sint num_threads"
      "length (threads \<tau>) = nat (sint (loop_i \<tau>))"
      using D(1-3) by (simp_all add: \<tau>_def)
    show "worker_ok num_steps num_threads j (threads \<tau> ! j)" if "j < length (threads \<tau>)" for j
      using that D(4) [of j] ok' by (simp add: len nth)
    show "t = total_result \<tau>"
      if "j < length (threads \<tau>)" "w_phase (threads \<tau> ! j) = Loaded p t" for j p t
    proof -
      from that have "j \<noteq> k" by (auto simp: len nth)
      with that D(5) [of j p t] show ?thesis by (simp add: len nth) (simp add: \<tau>_def)
    qed
    show "result_mutex \<tau> \<longleftrightarrow>
        (\<exists>j < length (threads \<tau>). in_critical_section (w_phase (threads \<tau> ! j)))"
    proof -
      have "(\<exists>j < length (threads \<tau>). in_critical_section (w_phase (threads \<tau> ! j))) \<longleftrightarrow>
          (\<exists>j < length (threads \<sigma>). in_critical_section (w_phase (threads \<sigma> ! j)))"
        using cs len by auto
      moreover have "result_mutex \<tau> = result_mutex \<sigma>" by (simp add: \<tau>_def)
      ultimately show ?thesis using D(6) by simp
    qed
    show "i = j" if "i < length (threads \<tau>)" "j < length (threads \<tau>)"
      "in_critical_section (w_phase (threads \<tau> ! i))"
      "in_critical_section (w_phase (threads \<tau> ! j))" for i j
      using that D(7) [of i j] cs by (simp add: len)
    show "\<exists>order. distinct order \<and> set order = finished_set \<tau> \<and>
        total_result \<tau> = foldl d_add d_zero (map (partial_result num_steps num_threads) order)"
      using D(8) by (simp add: fin) (simp add: \<tau>_def)
  qed
  then show ?thesis by (simp add: \<tau>_def q_def)
qed

lemma invariant_acquire:
  assumes inv: "invariant num_steps num_threads \<sigma>"
    and k: "k < length (threads \<sigma>)"
    and ph: "w_phase (threads \<sigma> ! k) = Waiting p"
    and free: "\<not> result_mutex \<sigma>"
  shows "invariant num_steps num_threads
       (\<sigma>\<lparr>result_mutex := True,
          threads := (threads \<sigma>)[k := (threads \<sigma> ! k)\<lparr>w_phase := Locked p\<rparr>]\<rparr>)"
proof -
  define \<tau> where "\<tau> = \<sigma>\<lparr>result_mutex := True,
          threads := (threads \<sigma>)[k := (threads \<sigma> ! k)\<lparr>w_phase := Locked p\<rparr>]\<rparr>"
  note D = invariantD [OF inv]
  have ok: "worker_ok num_steps num_threads k (threads \<sigma> ! k)"
    using D(4) k by simp
  have ok': "worker_ok num_steps num_threads k ((threads \<sigma> ! k)\<lparr>w_phase := Locked p\<rparr>)"
    using ok ph by (intro worker_ok_phase) (simp_all add: holds_partial_def worker_ok_def)
  have len: "length (threads \<tau>) = length (threads \<sigma>)"
    by (simp add: \<tau>_def)
  have nth: "\<And>j. j < length (threads \<sigma>) \<Longrightarrow> threads \<tau> ! j =
      (if j = k then (threads \<sigma> ! k)\<lparr>w_phase := Locked p\<rparr> else threads \<sigma> ! j)"
    by (simp add: \<tau>_def nth_set_phase)
  have tot: "total_result \<tau> = total_result \<sigma>"
    by (simp add: \<tau>_def)
  have fin: "finished_set \<tau> = finished_set \<sigma>"
    using k ph finished_set_update [of k \<sigma> "Locked p"]
    by (simp add: \<tau>_def finished_set_def)
  have none: "\<not> in_critical_section (w_phase (threads \<sigma> ! j))"
    if "j < length (threads \<sigma>)" for j
    using D(6) free that by blast
  have cs: "in_critical_section (w_phase (threads \<tau> ! j)) \<longleftrightarrow> j = k"
    if "j < length (threads \<sigma>)" for j
    using none [OF that] that by (simp add: nth in_critical_section_def)
  have "invariant num_steps num_threads \<tau>"
  proof (rule invariantI)
    show "0 \<le> sint (loop_i \<tau>)" "sint (loop_i \<tau>) \<le> sint num_threads"
      "length (threads \<tau>) = nat (sint (loop_i \<tau>))"
      using D(1-3) by (simp_all add: \<tau>_def)
    show "worker_ok num_steps num_threads j (threads \<tau> ! j)" if "j < length (threads \<tau>)" for j
      using that D(4) [of j] ok' by (simp add: len nth)
    show "t = total_result \<tau>"
      if "j < length (threads \<tau>)" "w_phase (threads \<tau> ! j) = Loaded q t" for j q t
    proof -
      from that have "j \<noteq> k" by (auto simp: len nth)
      with that D(5) [of j q t] show ?thesis by (simp add: len nth tot)
    qed
    show "result_mutex \<tau> \<longleftrightarrow>
        (\<exists>j < length (threads \<tau>). in_critical_section (w_phase (threads \<tau> ! j)))"
    proof -
      have "in_critical_section (w_phase (threads \<tau> ! k))"
        using cs [OF k] by simp
      with k len have "\<exists>j < length (threads \<tau>). in_critical_section (w_phase (threads \<tau> ! j))"
        by auto
      moreover have "result_mutex \<tau>" by (simp add: \<tau>_def)
      ultimately show ?thesis by simp
    qed
    show "i = j" if "i < length (threads \<tau>)" "j < length (threads \<tau>)"
      "in_critical_section (w_phase (threads \<tau> ! i))"
      "in_critical_section (w_phase (threads \<tau> ! j))" for i j
      using that cs by (simp add: len)
    show "\<exists>order. distinct order \<and> set order = finished_set \<tau> \<and>
        total_result \<tau> = foldl d_add d_zero (map (partial_result num_steps num_threads) order)"
      using D(8) by (simp add: fin tot)
  qed
  then show ?thesis by (simp add: \<tau>_def)
qed

lemma invariant_load:
  assumes inv: "invariant num_steps num_threads \<sigma>"
    and k: "k < length (threads \<sigma>)"
    and ph: "w_phase (threads \<sigma> ! k) = Locked p"
  shows "invariant num_steps num_threads
       (\<sigma>\<lparr>threads := (threads \<sigma>)[k := (threads \<sigma> ! k)
            \<lparr>w_phase := Loaded p (total_result \<sigma>)\<rparr>]\<rparr>)"
proof -
  define \<tau> where "\<tau> = \<sigma>\<lparr>threads := (threads \<sigma>)[k := (threads \<sigma> ! k)
            \<lparr>w_phase := Loaded p (total_result \<sigma>)\<rparr>]\<rparr>"
  note D = invariantD [OF inv]
  have ok: "worker_ok num_steps num_threads k (threads \<sigma> ! k)"
    using D(4) k by simp
  have ok': "worker_ok num_steps num_threads k
      ((threads \<sigma> ! k)\<lparr>w_phase := Loaded p (total_result \<sigma>)\<rparr>)"
    using ok ph by (intro worker_ok_phase) (simp_all add: holds_partial_def worker_ok_def)
  have len: "length (threads \<tau>) = length (threads \<sigma>)"
    by (simp add: \<tau>_def)
  have nth: "\<And>j. j < length (threads \<sigma>) \<Longrightarrow> threads \<tau> ! j =
      (if j = k then (threads \<sigma> ! k)\<lparr>w_phase := Loaded p (total_result \<sigma>)\<rparr>
       else threads \<sigma> ! j)"
    by (simp add: \<tau>_def nth_set_phase)
  have tot: "total_result \<tau> = total_result \<sigma>" and mut: "result_mutex \<tau> = result_mutex \<sigma>"
    by (simp_all add: \<tau>_def)
  have fin: "finished_set \<tau> = finished_set \<sigma>"
    unfolding \<tau>_def using k ph by (simp add: finished_set_update)
  have cs: "\<And>j. j < length (threads \<sigma>) \<Longrightarrow>
      in_critical_section (w_phase (threads \<tau> ! j)) \<longleftrightarrow>
      in_critical_section (w_phase (threads \<sigma> ! j))"
    using ph by (simp add: nth in_critical_section_def)
  have "invariant num_steps num_threads \<tau>"
  proof (rule invariantI)
    show "0 \<le> sint (loop_i \<tau>)" "sint (loop_i \<tau>) \<le> sint num_threads"
      "length (threads \<tau>) = nat (sint (loop_i \<tau>))"
      using D(1-3) by (simp_all add: \<tau>_def)
    show "worker_ok num_steps num_threads j (threads \<tau> ! j)" if "j < length (threads \<tau>)" for j
      using that D(4) [of j] ok' by (simp add: len nth)
    show "t = total_result \<tau>"
      if "j < length (threads \<tau>)" "w_phase (threads \<tau> ! j) = Loaded q t" for j q t
    proof (cases "j = k")
      case True
      with that show ?thesis by (simp add: len nth tot)
    next
      case False
      with that D(5) [of j q t] show ?thesis by (simp add: len nth tot)
    qed
    show "result_mutex \<tau> \<longleftrightarrow>
        (\<exists>j < length (threads \<tau>). in_critical_section (w_phase (threads \<tau> ! j)))"
    proof -
      have "(\<exists>j < length (threads \<tau>). in_critical_section (w_phase (threads \<tau> ! j))) \<longleftrightarrow>
          (\<exists>j < length (threads \<sigma>). in_critical_section (w_phase (threads \<sigma> ! j)))"
        using cs len by auto
      then show ?thesis using D(6) mut by simp
    qed
    show "i = j" if "i < length (threads \<tau>)" "j < length (threads \<tau>)"
      "in_critical_section (w_phase (threads \<tau> ! i))"
      "in_critical_section (w_phase (threads \<tau> ! j))" for i j
      using that D(7) [of i j] cs by (simp add: len)
    show "\<exists>order. distinct order \<and> set order = finished_set \<tau> \<and>
        total_result \<tau> = foldl d_add d_zero (map (partial_result num_steps num_threads) order)"
      using D(8) by (simp add: fin tot)
  qed
  then show ?thesis by (simp add: \<tau>_def)
qed

lemma invariant_store:
  assumes inv: "invariant num_steps num_threads \<sigma>"
    and k: "k < length (threads \<sigma>)"
    and ph: "w_phase (threads \<sigma> ! k) = Loaded p t"
  shows "invariant num_steps num_threads
       (\<sigma>\<lparr>total_result := d_add t p, result_mutex := False,
          threads := (threads \<sigma>)[k := (threads \<sigma> ! k)\<lparr>w_phase := Finished\<rparr>]\<rparr>)"
proof -
  define \<tau> where "\<tau> = \<sigma>\<lparr>total_result := d_add t p, result_mutex := False,
          threads := (threads \<sigma>)[k := (threads \<sigma> ! k)\<lparr>w_phase := Finished\<rparr>]\<rparr>"
  note D = invariantD [OF inv]
  have ok: "worker_ok num_steps num_threads k (threads \<sigma> ! k)"
    using D(4) k by simp
  with ph have p: "p = partial_result num_steps num_threads k"
    by (simp add: worker_ok_def holds_partial_def)
  have t: "t = total_result \<sigma>"
    using D(5) k ph by simp
  have ok': "worker_ok num_steps num_threads k ((threads \<sigma> ! k)\<lparr>w_phase := Finished\<rparr>)"
    using ok by (intro worker_ok_phase) (simp_all add: holds_partial_def)
  have len: "length (threads \<tau>) = length (threads \<sigma>)"
    by (simp add: \<tau>_def)
  have nth: "\<And>j. j < length (threads \<sigma>) \<Longrightarrow> threads \<tau> ! j =
      (if j = k then (threads \<sigma> ! k)\<lparr>w_phase := Finished\<rparr> else threads \<sigma> ! j)"
    by (simp add: \<tau>_def nth_set_phase)
  have tot: "total_result \<tau> = d_add (total_result \<sigma>) (partial_result num_steps num_threads k)"
    by (simp add: \<tau>_def p t)
  have fin: "finished_set \<tau> = insert k (finished_set \<sigma>)"
    using k ph finished_set_update [of k \<sigma> Finished]
    by (simp add: \<tau>_def finished_set_def)
  have k_cs: "in_critical_section (w_phase (threads \<sigma> ! k))"
    using ph by (simp add: in_critical_section_def)
  have only: "j = k"
    if "j < length (threads \<sigma>)" "in_critical_section (w_phase (threads \<sigma> ! j))" for j
    using D(7) [of j k] that k k_cs by simp
  have cs: "\<not> in_critical_section (w_phase (threads \<tau> ! j))"
    if "j < length (threads \<sigma>)" for j
  proof (cases "j = k")
    case True
    with that show ?thesis by (simp add: nth in_critical_section_def)
  next
    case False
    with that only [of j] show ?thesis by (auto simp: nth)
  qed
  have "invariant num_steps num_threads \<tau>"
  proof (rule invariantI)
    show "0 \<le> sint (loop_i \<tau>)" "sint (loop_i \<tau>) \<le> sint num_threads"
      "length (threads \<tau>) = nat (sint (loop_i \<tau>))"
      using D(1-3) by (simp_all add: \<tau>_def)
    show "worker_ok num_steps num_threads j (threads \<tau> ! j)" if "j < length (threads \<tau>)" for j
      using that D(4) [of j] ok' by (simp add: len nth)
    show "u = total_result \<tau>"
      if "j < length (threads \<tau>)" "w_phase (threads \<tau> ! j) = Loaded q u" for j q u
    proof -
      from that have "in_critical_section (w_phase (threads \<tau> ! j))"
        by (simp add: in_critical_section_def)
      with cs [of j] that show ?thesis by (simp add: len)
    qed
    show "result_mutex \<tau> \<longleftrightarrow>
        (\<exists>j < length (threads \<tau>). in_critical_section (w_phase (threads \<tau> ! j)))"
    proof -
      have "\<not> (\<exists>j < length (threads \<tau>). in_critical_section (w_phase (threads \<tau> ! j)))"
        using cs len by auto
      moreover have "\<not> result_mutex \<tau>" by (simp add: \<tau>_def)
      ultimately show ?thesis by simp
    qed
    show "i = j" if "i < length (threads \<tau>)" "j < length (threads \<tau>)"
      "in_critical_section (w_phase (threads \<tau> ! i))"
      "in_critical_section (w_phase (threads \<tau> ! j))" for i j
      using that cs [of i] by (simp add: len)
    show "\<exists>order. distinct order \<and> set order = finished_set \<tau> \<and>
        total_result \<tau> = foldl d_add d_zero (map (partial_result num_steps num_threads) order)"
    proof -
      from D(8) obtain order where ord: "distinct order" "set order = finished_set \<sigma>"
        "total_result \<sigma> =
           foldl d_add d_zero (map (partial_result num_steps num_threads) order)"
        by blast
      have "k \<notin> finished_set \<sigma>" using ph by (simp add: finished_set_def)
      then have "distinct (order @ [k])" "set (order @ [k]) = finished_set \<tau>"
        using ord fin by auto
      moreover have "total_result \<tau> =
          foldl d_add d_zero (map (partial_result num_steps num_threads) (order @ [k]))"
        using ord(3) tot by simp
      ultimately show ?thesis by blast
    qed
  qed
  then show ?thesis by (simp add: \<tau>_def)
qed

lemma invariant_step:
  assumes "step num_steps num_threads \<sigma> ev \<sigma>'" and "invariant num_steps num_threads \<sigma>"
  shows "invariant num_steps num_threads \<sigma>'"
  using assms
proof (induction rule: step.induct)
  case (launch \<sigma>)
  then show ?case by (intro invariant_launch)
next
  case (integrate k \<sigma>)
  then show ?case by (intro invariant_integrate)
next
  case (acquire k \<sigma> p)
  then show ?case by (intro invariant_acquire)
next
  case (load k \<sigma> p)
  then show ?case by (intro invariant_load)
next
  case (store k \<sigma> p t)
  then show ?case by (intro invariant_store)
qed

lemma invariant_run:
  assumes "run num_steps num_threads \<sigma> evs \<sigma>'" and "invariant num_steps num_threads \<sigma>"
  shows "invariant num_steps num_threads \<sigma>'"
  using assms by (induction rule: run.induct) (auto intro: invariant_step)

lemma joined_order:
  assumes inv: "invariant num_steps num_threads \<sigma>" and j: "joined num_threads \<sigma>"
  shows "\<exists>order. distinct order \<and> set order = {0 ..< nat (sint num_threads)} \<and>
     length order = nat (sint num_threads) \<and>
     total_result \<sigma> = foldl d_add d_zero (map (partial_result num_steps num_threads) order)"
proof -
  note D = invariantD [OF inv]
  from D(8) obtain order where ord: "distinct order" "set order = finished_set \<sigma>"
    "total_result \<sigma> = foldl d_add d_zero (map (partial_result num_steps num_threads) order)"
    by blast
  from D(2) j have "sint (loop_i \<sigma>) = sint num_threads"
    by (simp add: joined_def word_sless_alt)
  with D(3) have len: "length (threads \<sigma>) = nat (sint num_threads)"
    by simp
  from j have "finished_set \<sigma> = {0 ..< length (threads \<sigma>)}"
    by (auto simp: joined_def finished_set_def)
  with ord len have set: "set order = {0 ..< nat (sint num_threads)}" by simp
  from ord(1) have "length order = card (set order)"
    by (simp add: distinct_card)
  with set have "length order = nat (sint num_threads)" by simp
  with ord(1) ord(3) set show ?thesis by blast
qed

section \<open>Every run ends, and none gets stuck\<close>

lemma steps_left_phase_update:
  assumes k: "k < length ts"
    and dec: "phase_steps_left (w_phase (ts ! k)) = Suc (phase_steps_left ph)"
  shows "sum_list (map (\<lambda>w. phase_steps_left (w_phase w)) ts) =
     Suc (sum_list (map (\<lambda>w. phase_steps_left (w_phase w))
            (ts[k := (ts ! k)\<lparr>w_phase := ph\<rparr>])))"
proof -
  let ?f = "\<lambda>w. phase_steps_left (w_phase w)"
  have "map ?f (ts[k := (ts ! k)\<lparr>w_phase := ph\<rparr>]) = (map ?f ts)[k := phase_steps_left ph]"
    by (simp add: map_update)
  moreover have "sum_list ((map ?f ts)[k := phase_steps_left ph]) =
      sum_list (map ?f ts) + phase_steps_left ph - (map ?f ts) ! k"
    using k by (simp add: sum_list_update)
  moreover have "(map ?f ts) ! k = Suc (phase_steps_left ph)"
    using k dec by simp
  moreover have "(map ?f ts) ! k \<le> sum_list (map ?f ts)"
    using k by (intro member_le_sum_list) simp_all
  ultimately show ?thesis by simp
qed

lemma step_steps_left:
  assumes "step num_steps num_threads \<sigma> ev \<sigma>'"
  shows "steps_left num_threads \<sigma> = Suc (steps_left num_threads \<sigma>')"
  using assms
proof (induction rule: step.induct)
  case (launch \<sigma>)
  have "sint (loop_i \<sigma> + 1) = sint (loop_i \<sigma>) + 1"
    using launch by (rule sint_succ)
  moreover have "sint (loop_i \<sigma>) < sint num_threads"
    using launch by (simp add: word_sless_alt)
  ultimately show ?case
    by (simp add: steps_left_def nat_diff_distrib)
next
  case (integrate k \<sigma>)
  then show ?case
    using steps_left_phase_update [of k "threads \<sigma>"] by (simp add: steps_left_def)
next
  case (acquire k \<sigma> p)
  then show ?case
    using steps_left_phase_update [of k "threads \<sigma>"] by (simp add: steps_left_def)
next
  case (load k \<sigma> p)
  then show ?case
    using steps_left_phase_update [of k "threads \<sigma>"] by (simp add: steps_left_def)
next
  case (store k \<sigma> p t)
  then show ?case
    using steps_left_phase_update [of k "threads \<sigma>"] by (simp add: steps_left_def)
qed

lemma run_steps_left:
  assumes "run num_steps num_threads \<sigma> evs \<sigma>'"
  shows "steps_left num_threads \<sigma> = length evs + steps_left num_threads \<sigma>'"
  using assms by (induction rule: run.induct) (simp_all add: step_steps_left)

lemma run_cons:
  assumes "run num_steps num_threads \<sigma>' evs \<sigma>''" and "step num_steps num_threads \<sigma> ev \<sigma>'"
  shows "run num_steps num_threads \<sigma> (ev # evs) \<sigma>''"
  using assms
proof (induction rule: run.induct)
  case (run_nil \<sigma>')
  have "run num_steps num_threads \<sigma> [] \<sigma>"
    by (rule run.run_nil)
  then have "run num_steps num_threads \<sigma> ([] @ [ev]) \<sigma>'"
    using run_nil by (rule run.run_snoc)
  then show ?case by simp
next
  case (run_snoc \<sigma>' evs \<sigma>'' ev' \<sigma>''')
  then have "run num_steps num_threads \<sigma> (ev # evs) \<sigma>''" by simp
  then have "run num_steps num_threads \<sigma> ((ev # evs) @ [ev']) \<sigma>'''"
    using run_snoc.hyps(2) by (rule run.run_snoc)
  then show ?case by simp
qed

lemma progress:
  assumes inv: "invariant num_steps num_threads \<sigma>" and nj: "\<not> joined num_threads \<sigma>"
  shows "\<exists>ev \<sigma>'. step num_steps num_threads \<sigma> ev \<sigma>'"
proof (cases "loop_i \<sigma> <s num_threads")
  case True
  then show ?thesis by (blast intro: step.launch)
next
  case False
  with nj obtain w where w: "w \<in> set (threads \<sigma>)" "w_phase w \<noteq> Finished"
    by (auto simp: joined_def)
  then obtain k where k: "k < length (threads \<sigma>)" "threads \<sigma> ! k = w"
    by (auto simp: in_set_conv_nth)
  note D = invariantD [OF inv]
  show ?thesis
  proof (cases "result_mutex \<sigma>")
    case True
    with D(6) obtain j where j: "j < length (threads \<sigma>)"
      "in_critical_section (w_phase (threads \<sigma> ! j))"
      by blast
    then show ?thesis
      by (cases "w_phase (threads \<sigma> ! j)")
        (auto simp: in_critical_section_def intro: step.load step.store)
  next
    case free: False
    show ?thesis
    proof (cases "w_phase w")
      case Launched
      with k show ?thesis by (blast intro: step.integrate)
    next
      case (Waiting p)
      with k free show ?thesis by (blast intro: step.acquire)
    next
      case (Locked p)
      with k show ?thesis by (blast intro: step.load)
    next
      case (Loaded p t)
      with k show ?thesis by (blast intro: step.store)
    next
      case Finished
      with w show ?thesis by simp
    qed
  qed
qed

lemma run_to_joined:
  assumes "invariant num_steps num_threads \<sigma>"
  shows "\<exists>evs \<sigma>'. run num_steps num_threads \<sigma> evs \<sigma>' \<and> joined num_threads \<sigma>'"
  using assms
proof (induction "steps_left num_threads \<sigma>" arbitrary: \<sigma> rule: less_induct)
  case less
  show ?case
  proof (cases "joined num_threads \<sigma>")
    case True
    then show ?thesis by (blast intro: run.run_nil)
  next
    case False
    with less.prems obtain ev \<sigma>' where st: "step num_steps num_threads \<sigma> ev \<sigma>'"
      using progress by blast
    then have "steps_left num_threads \<sigma>' < steps_left num_threads \<sigma>"
      by (simp add: step_steps_left)
    moreover have "invariant num_steps num_threads \<sigma>'"
      using st less.prems by (rule invariant_step)
    ultimately obtain evs \<sigma>'' where "run num_steps num_threads \<sigma>' evs \<sigma>''"
      "joined num_threads \<sigma>''"
      using less.hyps by blast
    with st show ?thesis by (blast intro: run_cons)
  qed
qed

lemma main_has_run:
  assumes "\<not> invalid_input num_steps num_threads"
  shows "\<exists>evs \<sigma>. main num_steps num_threads evs (Some \<sigma>) (Exit_success (total_result \<sigma>) 0)"
proof -
  have "invariant num_steps num_threads initial_state"
    using assms by (rule invariant_initial)
  then obtain evs \<sigma> where "run num_steps num_threads initial_state evs \<sigma>"
    "joined num_threads \<sigma>"
    using run_to_joined by blast
  with assms show ?thesis by (blast intro: main.main_valid)
qed

lemma main_run_length:
  assumes "main num_steps num_threads evs (Some \<sigma>) out"
  shows "length evs = 5 * nat (sint num_threads)"
  using assms
proof (cases rule: main.cases)
  case main_valid
  then have "steps_left num_threads initial_state = length evs + steps_left num_threads \<sigma>"
    by (intro run_steps_left)
  moreover have "steps_left num_threads initial_state = 5 * nat (sint num_threads)"
    by (simp add: steps_left_def initial_state_def)
  moreover have "steps_left num_threads \<sigma> = 0"
  proof -
    have inv: "invariant num_steps num_threads \<sigma>"
      using main_valid invariant_initial invariant_run by blast
    from main_valid have j: "joined num_threads \<sigma>" by simp
    from invariantD(2) [OF inv] j have "sint (loop_i \<sigma>) = sint num_threads"
      by (simp add: joined_def word_sless_alt)
    moreover from j have "sum_list (map (\<lambda>w. phase_steps_left (w_phase w)) (threads \<sigma>)) = 0"
      by (simp add: joined_def)
    ultimately show ?thesis by (simp add: steps_left_def)
  qed
  ultimately show ?thesis by simp
qed

section \<open>The loop of the partial integrator\<close>

lemma unat_succ_less:
  assumes "(i::64 word) < steps"
  shows "unat (i + 1) = Suc (unat i)"
proof -
  from assms have "i \<noteq> - 1"
    by (metis word_order.extremum_strict)
  then have "i + 1 \<noteq> 0"
    by (metis add.commute add_eq_0_iff2)
  then show ?thesis
    by (metis add.commute unatSuc)
qed

lemma integral_loop_foldl:
  "integral_loop start step_size steps i acc =
     foldl (\<lambda>s k. d_add s (spec_sample (spec_sample_point start step_size k)))
       acc [unat i ..< unat steps]"
proof (induction start step_size steps i acc rule: integral_loop.induct)
  case (1 start step_size steps i acc)
  show ?case
  proof (cases "i < steps")
    case True
    then have lt: "unat i < unat steps"
      by (simp add: word_less_nat_alt)
    have succ: "unat (i + 1) = Suc (unat i)"
      using True by (rule unat_succ_less)
    have sample: "integrand (midpoint start step_size i) =
        spec_sample (spec_sample_point start step_size (unat i))"
      by (simp add: integrand_def midpoint_def spec_sample_def spec_sample_point_def
          ull_to_double_def)
    have "integral_loop start step_size steps i acc =
        integral_loop start step_size steps (i + 1)
          (d_add acc (integrand (midpoint start step_size i)))"
      using True by (subst integral_loop.simps) simp
    also have "\<dots> =
        foldl (\<lambda>s k. d_add s (spec_sample (spec_sample_point start step_size k)))
          (d_add acc (integrand (midpoint start step_size i))) [Suc (unat i) ..< unat steps]"
      using "1.IH" [OF True] by (simp add: succ)
    also have "\<dots> =
        foldl (\<lambda>s k. d_add s (spec_sample (spec_sample_point start step_size k)))
          acc [unat i ..< unat steps]"
      using lt by (simp add: upt_conv_Cons sample)
    finally show ?thesis .
  next
    case False
    then have "unat steps \<le> unat i"
      by (simp add: word_less_nat_alt)
    moreover have "integral_loop start step_size steps i acc = acc"
      using False by (subst integral_loop.simps) simp
    ultimately show ?thesis by simp
  qed
qed

text \<open>
  C2. \<open>calculate_partial_integral start end steps\<close> is the value of the formula of the
  specification evaluated in double precision: the samples \<open>4 / (1 + x_i\<^sup>2)\<close> at
  \<open>x_i = start + i * step_size + step_size / 2\<close>, \<open>i = 0, ..., steps - 1\<close>, added up in
  that order from \<open>0.0\<close>, times \<open>step_size = (end - start) / steps\<close>. This holds for
  every input, in particular for \<open>start \<le> end\<close> and \<open>steps \<ge> 1\<close>.
\<close>

theorem calculate_partial_integral_is_midpoint_rule:
  "calculate_partial_integral start endp steps = spec_midpoint_rule start endp steps"
  by (simp add: calculate_partial_integral_def spec_midpoint_rule_def integral_loop_foldl
      Let_def)

section \<open>The result of a run\<close>

lemma main_valid_final:
  assumes "main num_steps num_threads evs \<sigma>o out" and "\<not> invalid_input num_steps num_threads"
  obtains \<sigma> where "\<sigma>o = Some \<sigma>" "out = Exit_success (total_result \<sigma>) 0"
    "invariant num_steps num_threads \<sigma>" "joined num_threads \<sigma>"
  using assms(1)
proof (cases rule: main.cases)
  case main_invalid
  with assms(2) show ?thesis by simp
next
  case (main_valid \<sigma>)
  have "invariant num_steps num_threads initial_state"
    using assms(2) by (rule invariant_initial)
  with main_valid(4) have "invariant num_steps num_threads \<sigma>"
    by (rule invariant_run)
  with main_valid that show ?thesis by blast
qed

text \<open>
  C1. For every accepted input (\<open>num_steps \<ge> 1\<close>, \<open>num_threads \<ge> 1\<close>) the program prints a
  value, every run ends with exit status 0, and the value any run prints is the sum of
  exactly \<open>num_threads\<close> partial results, one for each thread index
  \<open>i = 0, ..., num_threads - 1\<close>, added one after the other to an accumulator that starts
  at \<open>0.0\<close>, in the order in which the threads took the mutex. The partial result of
  thread \<open>i\<close> is \<open>calculate_partial_integral\<close> at \<open>start = i * (1.0 / num_threads)\<close>,
  \<open>end = (i + 1) * (1.0 / num_threads)\<close> and \<open>steps = num_steps / num_threads\<close>.
\<close>

theorem main_prints_sum_of_partial_results:
  assumes "1 \<le> unat num_steps" and "1 \<le> sint num_threads"
  shows "(\<exists>evs \<sigma> v. main num_steps num_threads evs \<sigma> (Exit_success v 0)) \<and>
     (\<forall>evs \<sigma> out. main num_steps num_threads evs \<sigma> out \<longrightarrow>
        (\<exists>v order. out = Exit_success v 0 \<and>
           distinct order \<and> set order = {0 ..< nat (sint num_threads)} \<and>
           length order = nat (sint num_threads) \<and>
           v = foldl d_add d_zero
                 (map (\<lambda>i. calculate_partial_integral
                     (d_mul (int_to_double (int i))
                        (d_div d_one (int_to_double (sint num_threads))))
                     (d_mul (int_to_double (int i + 1))
                        (d_div d_one (int_to_double (sint num_threads))))
                     (num_steps div scast num_threads))
                    order)))"
proof -
  from assms have valid: "\<not> invalid_input num_steps num_threads"
    by (simp add: valid_input_iff)
  have pr: "(\<lambda>i. calculate_partial_integral
                     (d_mul (int_to_double (int i))
                        (d_div d_one (int_to_double (sint num_threads))))
                     (d_mul (int_to_double (int i + 1))
                        (d_div d_one (int_to_double (sint num_threads))))
                     (num_steps div scast num_threads)) =
      partial_result num_steps num_threads"
    by (rule ext) (simp add: partial_result_def)
  have "\<exists>evs \<sigma> v. main num_steps num_threads evs \<sigma> (Exit_success v 0)"
    using main_has_run [OF valid] by blast
  moreover have "\<exists>v order. out = Exit_success v 0 \<and>
           distinct order \<and> set order = {0 ..< nat (sint num_threads)} \<and>
           length order = nat (sint num_threads) \<and>
           v = foldl d_add d_zero (map (partial_result num_steps num_threads) order)"
    if "main num_steps num_threads evs \<sigma>o out" for evs \<sigma>o out
  proof -
    from that valid obtain \<sigma> where \<sigma>: "out = Exit_success (total_result \<sigma>) 0"
      "invariant num_steps num_threads \<sigma>" "joined num_threads \<sigma>"
      by (rule main_valid_final)
    from joined_order [OF \<sigma>(2,3)] \<sigma>(1) show ?thesis by blast
  qed
  ultimately show ?thesis unfolding pr by blast
qed

theorem main_prints_sum_of_partial_results_witness:
  "\<exists>evs \<sigma> v order. main 4 2 evs \<sigma> (Exit_success v 0) \<and>
     distinct order \<and> set order = {0 ..< 2} \<and> length order = 2 \<and>
     v = foldl d_add d_zero
           (map (\<lambda>i. calculate_partial_integral
               (d_mul (int_to_double (int i)) (d_div d_one (int_to_double 2)))
               (d_mul (int_to_double (int i + 1)) (d_div d_one (int_to_double 2)))
               2)
              order)"
proof -
  have h: "1 \<le> unat (4 :: 64 word)" "1 \<le> sint (2 :: 32 word)"
    by simp_all
  note main_thm = main_prints_sum_of_partial_results [OF h]
  from main_thm obtain evs \<sigma> v where run: "main 4 2 evs \<sigma> (Exit_success v 0)"
    by blast
  with main_thm obtain v' order where "Exit_success v 0 = Exit_success v' 0"
    "distinct order" "set order = {0 ..< nat (sint (2 :: 32 word))}"
    "length order = nat (sint (2 :: 32 word))"
    "v' = foldl d_add d_zero
           (map (\<lambda>i. calculate_partial_integral
               (d_mul (int_to_double (int i)) (d_div d_one (int_to_double (sint (2 :: 32 word)))))
               (d_mul (int_to_double (int i + 1))
                  (d_div d_one (int_to_double (sint (2 :: 32 word)))))
               ((4 :: 64 word) div scast (2 :: 32 word)))
              order)"
    by blast
  moreover have "(4 :: 64 word) div scast (2 :: 32 word) = 2" by simp
  ultimately show ?thesis using run by auto
qed

text \<open>
  C3. When \<open>num_threads <= 0\<close> or \<open>num_steps <= 0\<close>, the only behaviour of the program is
  to write the line \<open>error_message\<close> (the bytes of the message of the source, in UTF-8)
  to standard error   and to exit with status 1: no step of the threaded part is taken (no thread is
  launched, no integral is computed, nothing is stored to the accumulator, which does not
  exist yet).
\<close>

theorem invalid_input_exits_with_failure:
  assumes "num_threads <=s 0 \<or> num_steps \<le> 0"
  shows "main num_steps num_threads evs \<sigma> out \<longleftrightarrow>
     evs = [] \<and> \<sigma> = None \<and> out = Exit_failure error_message 1"
proof
  assume "main num_steps num_threads evs \<sigma> out"
  then show "evs = [] \<and> \<sigma> = None \<and> out = Exit_failure error_message 1"
    using assms by (cases rule: main.cases) (simp_all add: invalid_input_def)
next
  assume "evs = [] \<and> \<sigma> = None \<and> out = Exit_failure error_message 1"
  then show "main num_steps num_threads evs \<sigma> out"
    using assms by (simp add: main.main_invalid invalid_input_def)
qed

theorem invalid_input_exits_with_failure_witness:
  "main 1000 0 [] None (Exit_failure error_message 1) \<and>
   main 0 4 [] None (Exit_failure error_message 1) \<and>
   main 1000 (- 3) [] None (Exit_failure error_message 1)"
proof -
  have a: "(0 :: 32 word) <=s 0 \<or> (1000 :: 64 word) \<le> 0" by simp
  have b: "(4 :: 32 word) <=s 0 \<or> (0 :: 64 word) \<le> 0" by simp
  have c: "(- 3 :: 32 word) <=s 0 \<or> (1000 :: 64 word) \<le> 0" by (simp add: word_sle_eq)
  show ?thesis
    using invalid_input_exits_with_failure [OF a, of "[]" None "Exit_failure error_message 1"]
      invalid_input_exits_with_failure [OF b, of "[]" None "Exit_failure error_message 1"]
      invalid_input_exits_with_failure [OF c, of "[]" None "Exit_failure error_message 1"]
    by simp
qed
section \<open>The steps given to the threads\<close>




lemma unat_steps_per_thread:
  assumes "\<not> invalid_input num_steps num_threads"
  shows "unat (steps_per_thread num_steps num_threads) = unat num_steps div nat (sint num_threads)"
proof -
  from assms have "0 < sint num_threads" by (simp add: valid_input_iff)
  then have "unat (scast num_threads :: 64 word) = nat (sint num_threads)"
    by (rule unat_scast_pos)
  then show ?thesis by (simp add: steps_per_thread_def unat_div)
qed



section \<open>Negative entries\<close>

text \<open>
  C6 at the entries \<open>-5\<close> for \<open>num_steps\<close> and \<open>4\<close> for \<open>num_threads\<close>. The variable
  \<open>num_steps\<close> is an \<open>unsigned long long\<close>: it holds \<open>2^64 - 5\<close>, which the test
  \<open>num_steps <= 0\<close> lets through, and the program starts 4 threads with
  \<open>(2^64 - 5) div 4\<close> steps each and ends with status 0; the error message is not
  printed. The test of \<open>num_threads\<close>, a signed \<open>int\<close>, rejects \<open>-4\<close>, and \<open>0\<close> is rejected
  for both.
\<close>

theorem negative_steps_not_rejected:
  "extract_ull (- 5) = 18446744073709551611 \<and>
   extract_int 4 = 4 \<and>
   \<not> invalid_input (extract_ull (- 5)) (extract_int 4) \<and>
   steps_per_thread (extract_ull (- 5)) (extract_int 4) = 4611686018427387902 \<and>
   \<not> main_on_input (- 5) 4 [] None (Exit_failure error_message 1) \<and>
   (\<exists>evs \<sigma>. main_on_input (- 5) 4 evs (Some \<sigma>) (Exit_success (total_result \<sigma>) 0)) \<and>
   main_on_input 5 (- 4) [] None (Exit_failure error_message 1) \<and>
   main_on_input 0 4 [] None (Exit_failure error_message 1) \<and>
   main_on_input 5 0 [] None (Exit_failure error_message 1)"
proof -
  have v: "extract_ull (- 5) = 18446744073709551611"
    by (simp add: extract_ull_def)
  have t: "extract_int 4 = 4"
    by (simp add: extract_int_def)
  have valid: "\<not> invalid_input (18446744073709551611 :: 64 word) (4 :: 32 word)"
    by (simp add: invalid_input_def word_sle_eq)
  have spt: "steps_per_thread (18446744073709551611 :: 64 word) (4 :: 32 word) =
      4611686018427387902"
    by (simp add: steps_per_thread_def)
  have no: "\<not> main 18446744073709551611 4 [] None (Exit_failure error_message 1)"
  proof
    assume "main 18446744073709551611 4 [] None (Exit_failure error_message 1)"
    then show False using valid by (cases rule: main.cases) simp_all
  qed
  from main_has_run [OF valid] obtain evs \<sigma>
    where run: "main 18446744073709551611 4 evs (Some \<sigma>) (Exit_success (total_result \<sigma>) 0)"
    by blast
  have r: "\<bar>- 5 :: int\<bar> < 2 ^ 64" "\<bar>5 :: int\<bar> < 2 ^ 64" "\<bar>0 :: int\<bar> < 2 ^ 64"
    by simp_all
  have neg: "extract_ull 5 = 5" "extract_int (- 4) = - 4" "extract_ull 0 = 0"
    "extract_int 0 = 0"
    by (simp_all add: extract_ull_def extract_int_def)
  have a: "invalid_input (5 :: 64 word) (- 4 :: 32 word)"
    by (simp add: invalid_input_def word_sle_eq)
  have b: "invalid_input (0 :: 64 word) (4 :: 32 word)"
    by (simp add: invalid_input_def)
  have c: "invalid_input (5 :: 64 word) (0 :: 32 word)"
    by (simp add: invalid_input_def)
  have accepted: "\<exists>evs \<sigma>. main_on_input (- 5) 4 evs (Some \<sigma>) (Exit_success (total_result \<sigma>) 0)"
    unfolding main_on_input_def v t using run r(1) by blast
  have rejected: "main_on_input 5 (- 4) [] None (Exit_failure error_message 1)"
    "main_on_input 0 4 [] None (Exit_failure error_message 1)"
    "main_on_input 5 0 [] None (Exit_failure error_message 1)"
    unfolding main_on_input_def neg t
    using main.main_invalid [OF a] main.main_invalid [OF b] main.main_invalid [OF c] r
    by simp_all
  have "\<not> main_on_input (- 5) 4 [] None (Exit_failure error_message 1)"
    unfolding main_on_input_def v t using no by simp
  with v t valid spt accepted rejected show ?thesis
    by (simp only: v t) simp
qed


section \<open>One thread\<close>

lemma nonneg_double_valid:
  assumes "nonneg_double x"
  shows "valid_double x" and "x \<noteq> Fin True 0 (- 1074)"
  using assms by (cases x; simp add: nonneg_double_def valid_double_def)+

lemma nonneg_double_midpoint:
  assumes "nonneg_double start" and "nonneg_double step_size"
  shows "nonneg_double (midpoint start step_size i)"
  unfolding midpoint_def
  by (intro nonneg_double_add nonneg_double_mul nonneg_double_div nonneg_double_ull
      nonneg_double_consts assms)

lemma nonneg_double_integrand:
  assumes "nonneg_double x"
  shows "nonneg_double (integrand x)"
  unfolding integrand_def
  by (intro nonneg_double_add nonneg_double_mul nonneg_double_div nonneg_double_consts assms)

lemma nonneg_double_integral_loop:
  assumes "nonneg_double start" and "nonneg_double step_size" and "nonneg_double acc"
  shows "nonneg_double (integral_loop start step_size steps i acc)"
  using assms
proof (induction start step_size steps i acc rule: integral_loop.induct)
  case (1 start step_size steps i acc)
  show ?case
  proof (cases "i < steps")
    case True
    have "nonneg_double (d_add acc (integrand (midpoint start step_size i)))"
      using "1.prems"
      by (intro nonneg_double_add nonneg_double_integrand nonneg_double_midpoint)
    with "1.IH" [OF True] "1.prems" True show ?thesis
      by (subst integral_loop.simps) simp
  next
    case False
    with "1.prems" show ?thesis by (subst integral_loop.simps) simp
  qed
qed

lemma nonneg_double_integral_unit:
  "nonneg_double (calculate_partial_integral d_zero d_one steps)"
proof -
  have h: "nonneg_double (d_div d_one (ull_to_double steps))"
    by (intro nonneg_double_div nonneg_double_consts nonneg_double_ull)
  have "nonneg_double (integral_loop d_zero (d_div d_one (ull_to_double steps)) steps 0 d_zero)"
    using h by (intro nonneg_double_integral_loop nonneg_double_consts)
  with h show ?thesis
    by (simp add: calculate_partial_integral_def d_sub_one_zero Let_def nonneg_double_mul)
qed

lemma partial_result_one_thread:
  "partial_result num_steps 1 0 = calculate_partial_integral d_zero d_one num_steps"
  by (simp add: partial_result_def int_to_double_0 int_to_double_1 d_div_one_one
      d_mul_zero_one d_mul_one_one)

text \<open>
  C7. With \<open>thread_count = 1\<close> and \<open>num_steps \<ge> 1\<close> the one worker is given
  \<open>start = 0.0\<close>, \<open>end = 1.0\<close> and \<open>steps = num_steps\<close>, the program prints a value, and
  the value every run prints is exactly the result of the one call
  \<open>calculate_partial_integral 0.0 1.0 num_steps\<close>: adding it to the accumulator \<open>0.0\<close>
  changes no bit of it.
\<close>

theorem one_thread_is_one_call:
  assumes "1 \<le> unat num_steps"
  shows "interval_start 1 0 = d_zero \<and> interval_end 1 0 = d_one \<and>
     steps_per_thread num_steps 1 = num_steps \<and>
     (\<exists>evs \<sigma>. main num_steps 1 evs \<sigma>
        (Exit_success (calculate_partial_integral d_zero d_one num_steps) 0)) \<and>
     (\<forall>evs \<sigma> out. main num_steps 1 evs \<sigma> out \<longrightarrow>
        out = Exit_success (calculate_partial_integral d_zero d_one num_steps) 0)"
proof -
  let ?p = "calculate_partial_integral d_zero d_one num_steps"
  from assms have valid: "\<not> invalid_input num_steps 1"
    by (simp add: valid_input_iff)
  have args: "interval_start 1 0 = d_zero" "interval_end 1 0 = d_one"
    "steps_per_thread num_steps 1 = num_steps"
    by (simp_all add: interval_start_def interval_end_def range_per_thread_def
        sint_to_double_def steps_per_thread_def int_to_double_0 int_to_double_1
        d_div_one_one d_mul_zero_one d_mul_one_one)
  have add: "d_add d_zero ?p = ?p"
    using nonneg_double_valid [OF nonneg_double_integral_unit] by (rule d_add_zero_left)
  have every: "out = Exit_success ?p 0" if "main num_steps 1 evs \<sigma>o out" for evs \<sigma>o out
  proof -
    from that valid obtain \<sigma> where \<sigma>: "out = Exit_success (total_result \<sigma>) 0"
      "invariant num_steps 1 \<sigma>" "joined 1 \<sigma>"
      by (rule main_valid_final)
    from joined_order [OF \<sigma>(2,3)] obtain order where ord: "distinct order"
      "set order = {0 ..< nat (sint (1 :: 32 word))}" "length order = nat (sint (1 :: 32 word))"
      "total_result \<sigma> = foldl d_add d_zero (map (partial_result num_steps 1) order)"
      by blast
    from ord(2,3) have "order = [0]"
      by (cases order) auto
    with ord(4) have "total_result \<sigma> = d_add d_zero ?p"
      by (simp add: partial_result_one_thread)
    with add \<sigma>(1) show ?thesis by simp
  qed
  from main_has_run [OF valid] obtain evs \<sigma>
    where "main num_steps 1 evs (Some \<sigma>) (Exit_success (total_result \<sigma>) 0)"
    by blast
  with every have "main num_steps 1 evs (Some \<sigma>) (Exit_success ?p 0)"
    by fastforce
  with args every show ?thesis by blast
qed

theorem one_thread_is_one_call_witness:
  "steps_per_thread 1000 1 = 1000 \<and>
   (\<exists>evs \<sigma>. main 1000 1 evs \<sigma>
      (Exit_success (calculate_partial_integral d_zero d_one 1000) 0))"
proof -
  have h: "1 \<le> unat (1000 :: 64 word)" by simp
  from one_thread_is_one_call [OF h] show ?thesis by blast
qed

section \<open>The intervals at dispatch\<close>

text \<open>
  C9, as stated, fails: with 49 threads the last interval does not end at \<open>1.0\<close>.
  \<open>1.0 / 49\<close> rounds down, and 49 times the rounded value rounds to the double just
  below \<open>1.0\<close>, which is \<open>1 - 2^-53\<close>.
\<close>

theorem last_interval_of_49_ends_below_one:
  "range_per_thread 49 = Fin False 5882252574524729 (- 58) \<and>
   interval_end 49 48 = Fin False 9007199254740991 (- 53) \<and>
   interval_end 49 48 \<noteq> d_one"
proof -
  have r: "range_per_thread 49 = Fin False 5882252574524729 (- 58)"
    by (simp add: range_per_thread_def sint_to_double_def int_to_double_def round_double_def
        round_exponent_def round_significand_def floor_log2_def bit_length.simps
        round_half_even_def d_one_def scale_num_def scale_den_def Let_def)
  have i: "sint_to_double (48 + 1) = Fin False 6896136929411072 (- 47)"
    by (simp add: sint_to_double_def int_to_double_def round_double_def
        round_exponent_def round_significand_def floor_log2_def bit_length.simps
        round_half_even_def Let_def)
  have "interval_end 49 48 = d_mul (Fin False 6896136929411072 (- 47))
      (Fin False 5882252574524729 (- 58))"
    by (simp only: interval_end_def r i)
  also have "\<dots> = Fin False 9007199254740991 (- 53)"
    by (simp add: round_double_def round_exponent_def round_significand_def floor_log2_def
        bit_length.simps round_half_even_def scale_num_def scale_den_def Let_def)
  finally have e: "interval_end 49 48 = Fin False 9007199254740991 (- 53)" .
  with r show ?thesis by (simp add: d_one_def)
qed

text \<open>
  C9, amended. In every run of an accepted input the intervals given to the threads are
  contiguous: the end of the interval of thread \<open>k\<close> is the same double as the start of
  the interval of thread \<open>k + 1\<close>. Thread 0 starts at exactly \<open>0.0\<close>, every interval has
  a positive length, and the last thread ends at \<open>num_threads * (1.0 / num_threads)\<close>
  as computed in double precision, which is \<open>1.0\<close> or the double just below it,
  \<open>1 - 2^-53\<close>: the intervals never reach past \<open>1\<close>, and the last one may end one
  double short of it.
\<close>

theorem dispatched_intervals:
  assumes "\<not> invalid_input num_steps num_threads"
    and "main num_steps num_threads evs (Some \<sigma>) out"
  shows "length (threads \<sigma>) = nat (sint num_threads) \<and>
     (\<forall>k. Suc k < length (threads \<sigma>) \<longrightarrow>
        w_end (threads \<sigma> ! k) = w_start (threads \<sigma> ! Suc k)) \<and>
     (\<forall>k < length (threads \<sigma>).
        valof (w_start (threads \<sigma> ! k)) < valof (w_end (threads \<sigma> ! k))) \<and>
     w_start (threads \<sigma> ! 0) = d_zero \<and>
     w_end (last (threads \<sigma>)) =
       d_mul (int_to_double (sint num_threads))
         (d_div d_one (int_to_double (sint num_threads))) \<and>
     (w_end (last (threads \<sigma>)) = d_one \<or>
      w_end (last (threads \<sigma>)) = Fin False (2 ^ 53 - 1) (- 53)) \<and>
     1 - 2 powi (- 53) \<le> valof (w_end (last (threads \<sigma>))) \<and>
     valof (w_end (last (threads \<sigma>))) \<le> 1"
proof -
  from assms(2,1) obtain \<sigma>' where "Some \<sigma> = Some \<sigma>'"
    and inv': "invariant num_steps num_threads \<sigma>'" and j': "joined num_threads \<sigma>'"
    by (rule main_valid_final)
  then have inv: "invariant num_steps num_threads \<sigma>" and j: "joined num_threads \<sigma>"
    by simp_all
  note D = invariantD [OF inv]
  from assms(1) have nt: "1 \<le> sint num_threads" by (simp add: valid_input_iff)
  from D(2) j have "sint (loop_i \<sigma>) = sint num_threads"
    by (simp add: joined_def word_sless_alt)
  with D(3) have len: "length (threads \<sigma>) = nat (sint num_threads)" by simp
  have ws: "w_start (threads \<sigma> ! k) =
      d_mul (int_to_double (int k)) (range_per_thread num_threads)"
    and we: "w_end (threads \<sigma> ! k) =
      d_mul (int_to_double (int k + 1)) (range_per_thread num_threads)"
    if "k < length (threads \<sigma>)" for k
    using D(4) [OF that] by (simp_all add: worker_ok_def)
  have contiguous: "w_end (threads \<sigma> ! k) = w_start (threads \<sigma> ! Suc k)"
    if "Suc k < length (threads \<sigma>)" for k
    using that ws [of "Suc k"] we [of k] by (simp add: add.commute)
  have positive: "valof (w_start (threads \<sigma> ! k)) < valof (w_end (threads \<sigma> ! k))"
    if "k < length (threads \<sigma>)" for k
  proof -
    from that len have "int k + 1 \<le> sint num_threads" by simp
    from interval_point_increasing(3) [OF nt _ this] show ?thesis
      by (simp add: ws [OF that] we [OF that])
  qed
  from nt len have pos: "0 < length (threads \<sigma>)" by simp
  then have first: "w_start (threads \<sigma> ! 0) = d_zero"
    using range_per_thread_bounds(1) [OF nt]
    by (simp add: ws int_to_double_0 d_mul_zero_left)
  from pos have "last (threads \<sigma>) = threads \<sigma> ! (length (threads \<sigma>) - 1)"
    by (simp add: last_conv_nth)
  moreover have "int (length (threads \<sigma>) - 1) + 1 = sint num_threads"
    using len nt by simp
  ultimately have last_end: "w_end (last (threads \<sigma>)) =
      d_mul (sint_to_double num_threads) (range_per_thread num_threads)"
    using we [of "length (threads \<sigma>) - 1"] pos by (simp add: sint_to_double_def)
  have last_eq: "w_end (last (threads \<sigma>)) =
       d_mul (int_to_double (sint num_threads))
         (d_div d_one (int_to_double (sint num_threads)))"
    by (simp add: last_end sint_to_double_def range_per_thread_def)
  from last_interval_end_bounds(2,3) [OF nt]
  have "1 - 2 powi (- 53) \<le> valof (w_end (last (threads \<sigma>)))"
    and "valof (w_end (last (threads \<sigma>))) \<le> 1"
    by (simp_all only: last_end)
  moreover from last_interval_end_values [OF nt]
  have "w_end (last (threads \<sigma>)) = d_one \<or>
      w_end (last (threads \<sigma>)) = Fin False (2 ^ 53 - 1) (- 53)"
    by (simp only: last_end)
  ultimately show ?thesis using len contiguous positive first last_eq by blast
qed

theorem dispatched_intervals_witness:
  "\<exists>evs \<sigma>. main 8 4 evs (Some \<sigma>) (Exit_success (total_result \<sigma>) 0) \<and>
     length (threads \<sigma>) = 4 \<and>
     w_end (threads \<sigma> ! 0) = w_start (threads \<sigma> ! 1) \<and>
     w_start (threads \<sigma> ! 0) = d_zero \<and>
     valof (w_end (last (threads \<sigma>))) \<le> 1"
proof -
  have valid: "\<not> invalid_input 8 4"
    by (simp add: invalid_input_def word_sle_eq)
  from main_has_run [OF valid] obtain evs \<sigma>
    where run: "main 8 4 evs (Some \<sigma>) (Exit_success (total_result \<sigma>) 0)"
    by blast
  note d = dispatched_intervals [OF valid run]
  from d have len: "length (threads \<sigma>) = 4" by simp
  from d have "\<forall>k. Suc k < length (threads \<sigma>) \<longrightarrow>
        w_end (threads \<sigma> ! k) = w_start (threads \<sigma> ! Suc k)"
    by blast
  with len have "w_end (threads \<sigma> ! 0) = w_start (threads \<sigma> ! 1)"
    by simp
  moreover from d have "w_start (threads \<sigma> ! 0) = d_zero"
    and "valof (w_end (last (threads \<sigma>))) \<le> 1"
    by blast+
  ultimately show ?thesis using run len by blast
qed

section \<open>Fewer steps than threads\<close>

lemma pos_of_scaled:
  assumes "0 < x * (2::real) powi e"
  shows "0 < x"
proof -
  have "\<not> (2::real) powi e < 0" by (simp add: not_less)
  with assms show ?thesis by (simp add: zero_less_mult_iff)
qed

lemma d_sub_positive:
  assumes x: "fin_nonneg x" and y: "fin_nonneg y" and lt: "valof y < valof x"
  shows "d_sub x y = Inf False \<or> (\<exists>m e. d_sub x y = Fin False m e \<and> 0 < m)"
proof -
  from x obtain m1 e1 where x': "x = Fin False m1 e1" "valid_double (Fin False m1 e1)"
    "valof x = real_of_int m1 * 2 powi e1"
    by (rule fin_nonneg_cases)
  from y obtain m2 e2 where y': "y = Fin False m2 e2" "valid_double (Fin False m2 e2)"
    "valof y = real_of_int m2 * 2 powi e2"
    by (rule fin_nonneg_cases)
  define e where "e = min e1 e2"
  define A where "A = m1 * 2 ^ nat (e1 - e) - m2 * 2 ^ nat (e2 - e)"
  from x'(2) y'(2) have e_ge: "- 1074 \<le> e"
    by (auto simp: valid_double_def e_def)
  have "A = m1 * 2 ^ nat (e1 - min e1 e2) + (- m2) * 2 ^ nat (e2 - min e1 e2)"
    by (simp add: A_def e_def)
  then have "real_of_int A * 2 powi e =
      real_of_int m1 * 2 powi e1 + real_of_int (- m2) * 2 powi e2"
    unfolding e_def by (simp only: aligned_sum)
  then have val: "real_of_int A * 2 powi e = valof x - valof y"
    by (simp add: x'(3) y'(3))
  with lt have "0 < real_of_int A * 2 powi e" by simp
  then have "0 < real_of_int A" by (rule pos_of_scaled)
  then have A: "0 < A" by simp
  define N where "N = scale_num A e"
  define D where "D = scale_den e"
  have N: "0 < N" unfolding N_def using A by (rule scale_num_pos)
  have D: "0 < D" unfolding D_def by (rule scale_den_pos)
  have frac: "real_of_int N / real_of_int D = real_of_int A * 2 powi e"
    unfolding N_def D_def by (rule scale_fraction)
  have ne: "m1 * 2 ^ nat (e1 - e) \<noteq> m2 * 2 ^ nat (e2 - e)"
    and nlt: "\<not> m1 * 2 ^ nat (e1 - e) < m2 * 2 ^ nat (e2 - e)"
    and ab: "\<bar>m1 * 2 ^ nat (e1 - e) - m2 * 2 ^ nat (e2 - e)\<bar> = A"
    using A unfolding A_def by simp_all
  have sub: "d_sub x y = round_double False N D"
    using ne nlt by (simp add: d_sub_def d_neg_def x'(1) y'(1) Let_def
        e_def [symmetric] ab N_def D_def)
  have tiny: "valid_double (Fin False 1 (- 1074))" by (simp add: valid_double_def)
  have "real_of_int 1 * 2 powi (- 1074) \<le> real_of_int A * 2 powi e"
  proof -
    have "1 \<le> real_of_int A" using A by simp
    moreover have "(2::real) powi (- 1074) \<le> 2 powi e" using e_ge by (rule powi_two_mono)
    ultimately have "1 * 2 powi (- 1074) \<le> real_of_int A * 2 powi e"
      by (intro mult_mono) simp_all
    then show ?thesis by simp
  qed
  then have "real_of_int 1 * 2 powi (- 1074) \<le> real_of_int N / real_of_int D"
    by (simp only: frac)
  with N D tiny have low: "real_of_int 1 * 2 powi (- 1074) \<le> rounded_value N D"
    by (rule rounded_value_lower)
  have "0 < (2::real) powi (- 1074)" by simp
  with low have Rpos: "0 < rounded_value N D" by simp
  from round_double_cases [OF N D, of False] show ?thesis
  proof
    assume "2 powi 1024 \<le> rounded_value N D \<and> round_double False N D = Inf False"
    then show ?thesis by (simp add: sub)
  next
    assume "rounded_value N D < 2 powi 1024 \<and>
      (\<exists>m e. round_double False N D = Fin False m e \<and> valid_double (Fin False m e) \<and>
         real_of_int m * 2 powi e = rounded_value N D)"
    then obtain m e' where r: "round_double False N D = Fin False m e'"
      "real_of_int m * 2 powi e' = rounded_value N D"
      by blast
    from r(2) Rpos have "0 < real_of_int m * 2 powi e'" by simp
    then have "0 < real_of_int m" by (rule pos_of_scaled)
    then have "0 < m" by simp
    with r(1) show ?thesis by (simp add: sub)
  qed
qed

lemma integral_zero_steps:
  assumes "d_sub endp start = Inf False \<or> (\<exists>m e. d_sub endp start = Fin False m e \<and> 0 < m)"
  shows "d_div (d_sub endp start) (ull_to_double 0) = Inf False"
    and "calculate_partial_integral start endp 0 = NaN"
proof -
  have z: "ull_to_double 0 = Fin False 0 (- 1074)"
    by (simp add: ull_to_double_def int_to_double_0 d_zero_def)
  from assms show h: "d_div (d_sub endp start) (ull_to_double 0) = Inf False"
    by (auto simp: z)
  have "integral_loop start (Inf False) 0 0 d_zero = d_zero"
    by (subst integral_loop.simps) simp
  then show "calculate_partial_integral start endp 0 = NaN"
    by (simp add: calculate_partial_integral_def h Let_def d_zero_def)
qed

lemma d_add_NaN_right: "d_add x NaN = NaN"
  by (cases x) simp_all

lemma foldl_d_add_NaN:
  assumes "xs \<noteq> []" and "\<And>x. x \<in> set xs \<Longrightarrow> f x = NaN"
  shows "foldl d_add acc (map f xs) = NaN"
  using assms
proof (induction xs arbitrary: acc rule: rev_induct)
  case Nil
  then show ?case by simp
next
  case (snoc x xs)
  then show ?case by (simp add: d_add_NaN_right)
qed

text \<open>
  C5. For every input with \<open>1 \<le> num_steps < num_threads\<close> the validation accepts the
  input, \<open>steps_per_thread\<close> is 0, and every worker is given \<open>steps = 0\<close>. In the call of
  each thread \<open>i\<close> the difference \<open>end - start\<close> is divided by \<open>0.0\<close>, so that
  \<open>step_size\<close> is plus infinity, the sum stays \<open>0.0\<close> and the call returns
  \<open>0.0 * infinity\<close>, a NaN. The program prints a value, and the value printed by every
  run is NaN.
\<close>

theorem fewer_steps_than_threads_prints_nan:
  assumes "1 \<le> unat num_steps" and "int (unat num_steps) < sint num_threads"
  shows "\<not> invalid_input num_steps num_threads \<and>
     steps_per_thread num_steps num_threads = 0 \<and>
     (\<forall>i. 0 \<le> sint i \<and> i <s num_threads \<longrightarrow>
        d_div (d_sub (interval_end num_threads i) (interval_start num_threads i))
          (ull_to_double (steps_per_thread num_steps num_threads)) = Inf False \<and>
        calculate_partial_integral (interval_start num_threads i) (interval_end num_threads i)
          (steps_per_thread num_steps num_threads) = NaN) \<and>
     (\<exists>evs \<sigma>. main num_steps num_threads evs \<sigma> (Exit_success NaN 0)) \<and>
     (\<forall>evs \<sigma> out. main num_steps num_threads evs (Some \<sigma>) out \<longrightarrow>
        out = Exit_success NaN 0 \<and> (\<forall>w \<in> set (threads \<sigma>). w_steps w = 0))"
proof -
  from assms have nt: "1 \<le> sint num_threads" by linarith
  with assms(1) have valid: "\<not> invalid_input num_steps num_threads"
    by (simp add: valid_input_iff)
  have "unat (steps_per_thread num_steps num_threads) = unat num_steps div nat (sint num_threads)"
    using valid by (rule unat_steps_per_thread)
  also have "\<dots> = 0"
  proof -
    from assms(2) nt have "unat num_steps < nat (sint num_threads)" by linarith
    then show ?thesis by (rule div_less)
  qed
  finally have spt: "steps_per_thread num_steps num_threads = 0"
    by (simp add: unat_eq_0)
  have word: "d_div (d_sub (interval_end num_threads i) (interval_start num_threads i))
          (ull_to_double 0) = Inf False \<and>
        calculate_partial_integral (interval_start num_threads i) (interval_end num_threads i)
          0 = NaN"
    if "0 \<le> sint i \<and> i <s num_threads" for i
  proof -
    from that have i: "0 \<le> sint i" "i <s num_threads" by simp_all
    note inc = interval_increasing [OF nt i]
    from integral_zero_steps [OF d_sub_positive [OF inc(2,1,3)]] show ?thesis by simp
  qed
  have partial: "partial_result num_steps num_threads k = NaN" if "k < nat (sint num_threads)" for k
  proof -
    from that have "int k + 1 \<le> sint num_threads" by simp
    note inc = interval_point_increasing [OF nt _ this]
    have "calculate_partial_integral
        (d_mul (int_to_double (int k)) (range_per_thread num_threads))
        (d_mul (int_to_double (int k + 1)) (range_per_thread num_threads)) 0 = NaN"
      by (rule integral_zero_steps(2) [OF d_sub_positive]) (simp_all add: inc)
    then show ?thesis by (simp add: partial_result_alt spt)
  qed
  have every: "out = Exit_success NaN 0 \<and> (\<forall>w \<in> set (threads \<sigma>). w_steps w = 0)"
    if "main num_steps num_threads evs (Some \<sigma>) out" for evs \<sigma> out
  proof -
    from that valid obtain \<sigma>' where "Some \<sigma> = Some \<sigma>'"
      and out': "out = Exit_success (total_result \<sigma>') 0"
      and inv': "invariant num_steps num_threads \<sigma>'" and j': "joined num_threads \<sigma>'"
      by (rule main_valid_final)
    then have out: "out = Exit_success (total_result \<sigma>) 0"
      and inv: "invariant num_steps num_threads \<sigma>" and j: "joined num_threads \<sigma>"
      by simp_all
    from joined_order [OF inv j] obtain order where ord:
      "set order = {0 ..< nat (sint num_threads)}" "length order = nat (sint num_threads)"
      "total_result \<sigma> = foldl d_add d_zero (map (partial_result num_steps num_threads) order)"
      by blast
    from ord(2) nt have "order \<noteq> []" by auto
    moreover have "partial_result num_steps num_threads k = NaN" if "k \<in> set order" for k
      using that ord(1) partial by simp
    ultimately have "total_result \<sigma> = NaN"
      unfolding ord(3) by (rule foldl_d_add_NaN)
    moreover have "w_steps w = 0" if "w \<in> set (threads \<sigma>)" for w
    proof -
      from that obtain k where "k < length (threads \<sigma>)" "threads \<sigma> ! k = w"
        by (auto simp: in_set_conv_nth)
      with invariantD(4) [OF inv, of k] show ?thesis by (simp add: worker_ok_def spt)
    qed
    ultimately show ?thesis using out by simp
  qed
  from main_has_run [OF valid] obtain evs \<sigma>
    where run: "main num_steps num_threads evs (Some \<sigma>) (Exit_success (total_result \<sigma>) 0)"
    by blast
  with every have "Exit_success (total_result \<sigma>) 0 = Exit_success NaN 0" by blast
  with run have ex: "\<exists>evs \<sigma>. main num_steps num_threads evs \<sigma> (Exit_success NaN 0)"
    by auto
  from valid spt word every ex show ?thesis by (simp only: spt) blast
qed

theorem fewer_steps_than_threads_prints_nan_witness:
  "steps_per_thread 3 8 = 0 \<and>
   calculate_partial_integral (interval_start 8 5) (interval_end 8 5) (steps_per_thread 3 8) = NaN \<and>
   (\<exists>evs \<sigma>. main 3 8 evs \<sigma> (Exit_success NaN 0))"
proof -
  have h: "1 \<le> unat (3 :: 64 word)" "int (unat (3 :: 64 word)) < sint (8 :: 32 word)"
    by simp_all
  note t = fewer_steps_than_threads_prints_nan [OF h]
  have i: "0 \<le> sint (5 :: 32 word) \<and> (5 :: 32 word) <s 8"
    by (simp add: word_sless_alt)
  from t have "\<forall>i. 0 \<le> sint i \<and> i <s 8 \<longrightarrow>
        d_div (d_sub (interval_end 8 i) (interval_start 8 i))
          (ull_to_double (steps_per_thread 3 8)) = Inf False \<and>
        calculate_partial_integral (interval_start 8 i) (interval_end 8 i)
          (steps_per_thread 3 8) = NaN"
    by blast
  with i have "calculate_partial_integral (interval_start 8 5) (interval_end 8 5)
      (steps_per_thread 3 8) = NaN"
    by blast
  with t show ?thesis by blast
qed
section \<open>Bounds on the partial integral\<close>













section \<open>Relative errors of sums and differences\<close>







section \<open>Very many steps\<close>






section \<open>The sample points stay in the unit interval\<close>






subsection \<open>The lower bound needs two roundings only\<close>








section \<open>The partial integral against the bounds of the exact integral\<close>











end
